theory Spec2Isabelle
  imports Main "HOL-Library.Signed_Division"
begin

section \<open>Data model of ThreadPool.cpp\<close>

text \<open>
  The C++ type \<open>int\<close> is modelled by the mathematical integers together with an explicit
  range check: signed overflow and division by zero are undefined behaviour in C++ and
  appear in the model as error values, never as wrap-around.
\<close>

datatype error =
    Division_By_Zero
  | Signed_Overflow
  | Length_Error
  | Out_Of_Range
  | Empty_Queue

definition INT_MIN :: int where
  "INT_MIN = - 2147483648"

definition INT_MAX :: int where
  "INT_MAX = 2147483647"

definition checked :: "int \<Rightarrow> error + int" where
  "checked v = (if INT_MIN \<le> v \<and> v \<le> INT_MAX then Inr v else Inl Signed_Overflow)"

type_synonym func_t = "int \<Rightarrow> int \<Rightarrow> error + int"

text \<open>The enum constants \<open>nEvaluations\<close> and \<open>nThreads\<close> (lines 32-35).\<close>

definition nEvaluations :: int where
  "nEvaluations = 11"

definition nThreads :: int where
  "nThreads = 4"

subsection \<open>The sample functions (lines 104-137)\<close>

definition myFunc_1 :: func_t where
  "myFunc_1 a b = checked (a + b)"

definition myFunc_2 :: func_t where
  "myFunc_2 a b = checked (a - b)"

definition myFunc_3 :: func_t where
  "myFunc_3 a b = checked (a * b)"

text \<open>\<open>a / b\<close> on C++ ints truncates towards zero (\<open>sdiv\<close>); there is no test of \<open>b\<close>.\<close>

definition myFunc_4 :: func_t where
  "myFunc_4 a b = (if b = 0 then Inl Division_By_Zero else checked (a sdiv b))"

definition funcs :: "func_t list" where
  "funcs = [myFunc_1, myFunc_2, myFunc_3, myFunc_4]"

definition nFuncs :: int where
  "nFuncs = int (length funcs)"

record evalStruct =
  param1 :: int
  param2 :: int
  result :: int
  readyFlag :: bool
  func :: func_t

subsection \<open>Tasks: the closure built by \<open>evaluate\<close> (lines 59-62)\<close>

text \<open>
  The lambda captures \<open>param1\<close>, \<open>param2\<close> and \<open>f\<close> by value and \<open>result\<close>, \<open>ready\<close> by
  reference. The caller-owned memory the references point into is the vector of
  \<open>evalStruct\<close>; a reference is the index of the slot whose \<open>result\<close> (respectively
  \<open>readyFlag\<close>) field it denotes. An \<open>int&\<close> and a \<open>bool&\<close> never alias.
\<close>

record task =
  cap_f :: func_t
  cap_param1 :: int
  cap_param2 :: int
  cap_result :: nat
  cap_ready :: nat

definition write_result :: "task \<Rightarrow> int \<Rightarrow> evalStruct list \<Rightarrow> evalStruct list" where
  "write_result t v m = m[cap_result t := (m ! cap_result t)\<lparr>result := v\<rparr>]"

definition write_ready :: "task \<Rightarrow> evalStruct list \<Rightarrow> evalStruct list" where
  "write_ready t m = m[cap_ready t := (m ! cap_ready t)\<lparr>readyFlag := True\<rparr>]"

text \<open>
  The body of the lambda, statement by statement: the list holds the memory before the
  body, after \<open>result = f(param1, param2)\<close> and after \<open>ready = true\<close>. A call of \<open>f\<close>
  that has undefined behaviour ends the body at once.
\<close>

definition task_trace :: "task \<Rightarrow> evalStruct list \<Rightarrow> error + evalStruct list list" where
  "task_trace t m =
     (case cap_f t (cap_param1 t) (cap_param2 t) of
        Inl e \<Rightarrow> Inl e
      | Inr v \<Rightarrow> Inr [m, write_result t v m, write_ready t (write_result t v m)])"

definition run_task :: "task \<Rightarrow> evalStruct list \<Rightarrow> error + evalStruct list" where
  "run_task t m =
     (case cap_f t (cap_param1 t) (cap_param2 t) of
        Inl e \<Rightarrow> Inl e
      | Inr v \<Rightarrow> Inr (write_ready t (write_result t v m)))"

subsection \<open>Threads, workers and the pool (lines 39-102)\<close>

datatype tid = Caller nat | Worker nat

text \<open>
  Program points of the detached thread running \<open>ThreadManager::execute\<close> (lines 86-99):
  \<^item> \<open>W_Lock\<close>: top of the \<open>for (;;)\<close> body, about to construct \<open>locker\<close>;
  \<^item> \<open>W_Check\<close>: holding the mutex, at the test \<open>functionsQueue.empty()\<close>;
  \<^item> \<open>W_Wait\<close>: inside \<open>m_cvNewFunc.wait(locker)\<close>, mutex released;
  \<^item> \<open>W_Front\<close>: past the loop (and the one-second sleep), at \<open>f = functionsQueue.front()\<close>;
  \<^item> \<open>W_Call f\<close>: inside \<open>f()\<close>, at \<open>result = f(param1, param2)\<close>;
  \<^item> \<open>W_Ready f\<close>: inside \<open>f()\<close>, at \<open>ready = true\<close>;
  \<^item> \<open>W_Pop\<close>: at \<open>functionsQueue.pop()\<close>;
  \<^item> \<open>W_Free\<close>: at \<open>free = true\<close>;
  \<^item> \<open>W_Unlock\<close>: end of the loop body, where \<open>locker\<close> is destroyed;
  \<^item> \<open>W_Crashed e\<close>: the thread ran into undefined behaviour and makes no further step.
\<close>

datatype wpc =
    W_Lock
  | W_Check
  | W_Wait
  | W_Front
  | W_Call task
  | W_Ready task
  | W_Pop
  | W_Free
  | W_Unlock
  | W_Crashed error

text \<open>
  \<open>m_mxQueue\<close> is the owner of the mutex, if any. \<open>thr\<close> is the thread started and detached
  by the constructor, given by its program point. The condition variable carries no state:
  only the worker itself ever waits on it, and a wait may return at any time (spurious
  wake-ups are allowed), so \<open>notify_one\<close> enables nothing that is not enabled already.
\<close>

record ThreadManager =
  m_mxQueue :: "tid option"
  functionsQueue :: "task list"
  free :: bool
  m_id :: int
  thr :: wpc

record ThreadPool =
  m_nThreads :: int
  m_vpThreads :: "ThreadManager list"

definition ThreadManager_new :: "int \<Rightarrow> ThreadManager" where
  "ThreadManager_new ident =
     \<lparr>m_mxQueue = None, functionsQueue = [], free = True, m_id = ident, thr = W_Lock\<rparr>"

text \<open>The loop of the constructor (lines 46-48).\<close>

function ctor_loop :: "int \<Rightarrow> int \<Rightarrow> ThreadManager list \<Rightarrow> ThreadManager list" where
  "ctor_loop n i v = (if i < n then ctor_loop n (i + 1) (v @ [ThreadManager_new i]) else v)"
  by pat_completeness auto
termination
  by (relation "measure (\<lambda>(n, i, v). nat (n - i))") auto

declare ctor_loop.simps [simp del]

text \<open>
  The constructor (lines 43-49). \<open>m_vpThreads.reserve(m_nThreads)\<close> converts its argument
  to the unsigned \<open>size_type\<close>; a negative count becomes a value above \<open>max_size()\<close> and
  \<open>reserve\<close> throws \<open>std::length_error\<close>. There is no other test of the count.
\<close>

definition ThreadPool_new :: "int \<Rightarrow> error + ThreadPool" where
  "ThreadPool_new n =
     (if n < 0 then Inl Length_Error
      else Inr \<lparr>m_nThreads = n, m_vpThreads = ctor_loop n 0 []\<rparr>)"

subsection \<open>\<open>evaluate\<close> as one uninterrupted call (lines 52-68)\<close>

text \<open>
  A call either returns, or waits for a mutex that another thread holds (and cannot go
  on by itself), or throws: \<open>at(i)\<close> throws \<open>std::out_of_range\<close>.
\<close>

datatype 'a outcome = Returned 'a | Blocked | Raised error

definition mk_task :: "func_t \<Rightarrow> int \<Rightarrow> int \<Rightarrow> nat \<Rightarrow> nat \<Rightarrow> task" where
  "mk_task f p1 p2 res rdy =
     \<lparr>cap_f = f, cap_param1 = p1, cap_param2 = p2, cap_result = res, cap_ready = rdy\<rparr>"

definition at_worker :: "ThreadPool \<Rightarrow> nat \<Rightarrow> error + ThreadManager" where
  "at_worker p i =
     (if i < length (m_vpThreads p) then Inr (m_vpThreads p ! i) else Inl Out_Of_Range)"

definition upd_worker :: "nat \<Rightarrow> ThreadManager \<Rightarrow> ThreadPool \<Rightarrow> ThreadPool" where
  "upd_worker i w p = p\<lparr>m_vpThreads := (m_vpThreads p)[i := w]\<rparr>"

function evaluate_loop :: "ThreadPool \<Rightarrow> task \<Rightarrow> nat \<Rightarrow> (bool \<times> ThreadPool) outcome" where
  "evaluate_loop p t i =
     (if \<not> int i < m_nThreads p then Returned (False, p)
      else
        (case at_worker p i of
           Inl e \<Rightarrow> Raised e
         | Inr w \<Rightarrow>
             if free w then
               (case m_mxQueue w of
                  Some other \<Rightarrow> Blocked
                | None \<Rightarrow>
                    Returned (True,
                      upd_worker i
                        (w\<lparr>free := False, functionsQueue := functionsQueue w @ [t]\<rparr>) p))
             else evaluate_loop p t (Suc i)))"
  by pat_completeness auto
termination
  by (relation "measure (\<lambda>(p, t, i). nat (m_nThreads p) - i)") auto

declare evaluate_loop.simps [simp del]

definition evaluate ::
  "ThreadPool \<Rightarrow> func_t \<Rightarrow> int \<Rightarrow> int \<Rightarrow> nat \<Rightarrow> nat \<Rightarrow> (bool \<times> ThreadPool) outcome" where
  "evaluate p f p1 p2 res rdy = evaluate_loop p (mk_task f p1 p2 res rdy) 0"

subsection \<open>The table of evaluations built by \<open>main\<close> (lines 169-173)\<close>

function build_vEvals :: "int \<Rightarrow> evalStruct list \<Rightarrow> evalStruct list" where
  "build_vEvals i v =
     (if i < nEvaluations
      then build_vEvals (i + 1)
             (v @ [\<lparr>param1 = 2 * i, param2 = i, result = 0, readyFlag = False,
                    func = funcs ! nat (i mod nFuncs)\<rparr>])
      else v)"
  by pat_completeness auto
termination
  by (relation "measure (\<lambda>(i, v). nat (nEvaluations - i))") auto

declare build_vEvals.simps [simp del]

definition main_vEvals :: "evalStruct list" where
  "main_vEvals = build_vEvals 0 []"

section \<open>The threads running together\<close>

text \<open>
  Program points of a thread that calls \<open>evaluate\<close> the way \<open>main\<close> does (lines 179-185):
  for each evaluation in turn, \<open>do scheduled = pool.evaluate(...) while (!scheduled)\<close>.
  \<^item> \<open>C_Call\<close>: about to call \<open>evaluate\<close> for the first evaluation not yet scheduled;
  \<^item> \<open>C_Scan i\<close>: in the loop of \<open>evaluate\<close> at index \<open>i\<close>, at the tests of line 54 and 55;
  \<^item> \<open>C_Lock i\<close>: \<open>free\<close> was read as true, about to construct \<open>locker\<close> (line 56);
  \<^item> \<open>C_SetBusy i\<close>: holding the mutex, at \<open>free = false\<close> (line 57);
  \<^item> \<open>C_Push i\<close>: at \<open>functionsQueue.push(...)\<close> (line 59);
  \<^item> \<open>C_Unlock i\<close>: at \<open>notify_one()\<close> and \<open>break\<close>, which destroys \<open>locker\<close>;
  \<^item> \<open>C_Ret b\<close>: \<open>evaluate\<close> has returned \<open>b\<close>;
  \<^item> \<open>C_Raised e\<close>: an exception left \<open>evaluate\<close>; the thread makes no further step.
\<close>

datatype cpc =
    C_Call
  | C_Scan nat
  | C_Lock nat
  | C_SetBusy nat
  | C_Push nat
  | C_Unlock nat
  | C_Ret bool
  | C_Raised error

record caller =
  todo :: "task list"
  pc :: cpc

record sys =
  pool :: ThreadPool
  callers :: "caller list"
  vEvals :: "evalStruct list"

definition set_pc :: "nat \<Rightarrow> cpc \<Rightarrow> sys \<Rightarrow> sys" where
  "set_pc c l s = s\<lparr>callers := (callers s)[c := (callers s ! c)\<lparr>pc := l\<rparr>]\<rparr>"

definition set_worker :: "nat \<Rightarrow> ThreadManager \<Rightarrow> sys \<Rightarrow> sys" where
  "set_worker i w s = s\<lparr>pool := upd_worker i w (pool s)\<rparr>"

definition caller_step :: "nat \<Rightarrow> sys \<Rightarrow> sys option" where
  "caller_step c s =
     (if \<not> c < length (callers s) then None
      else
        (case pc (callers s ! c) of
           C_Call \<Rightarrow>
             (case todo (callers s ! c) of
                [] \<Rightarrow> None
              | t # ts \<Rightarrow> Some (set_pc c (C_Scan 0) s))
         | C_Scan i \<Rightarrow>
             if \<not> int i < m_nThreads (pool s) then Some (set_pc c (C_Ret False) s)
             else
               (case at_worker (pool s) i of
                  Inl e \<Rightarrow> Some (set_pc c (C_Raised e) s)
                | Inr w \<Rightarrow>
                    if free w then Some (set_pc c (C_Lock i) s)
                    else Some (set_pc c (C_Scan (Suc i)) s))
         | C_Lock i \<Rightarrow>
             (case at_worker (pool s) i of
                Inl e \<Rightarrow> Some (set_pc c (C_Raised e) s)
              | Inr w \<Rightarrow>
                  (case m_mxQueue w of
                     Some other \<Rightarrow> None
                   | None \<Rightarrow>
                       Some (set_pc c (C_SetBusy i)
                              (set_worker i (w\<lparr>m_mxQueue := Some (Caller c)\<rparr>) s))))
         | C_SetBusy i \<Rightarrow>
             (case at_worker (pool s) i of
                Inl e \<Rightarrow> Some (set_pc c (C_Raised e) s)
              | Inr w \<Rightarrow> Some (set_pc c (C_Push i) (set_worker i (w\<lparr>free := False\<rparr>) s)))
         | C_Push i \<Rightarrow>
             (case at_worker (pool s) i of
                Inl e \<Rightarrow> Some (set_pc c (C_Raised e) s)
              | Inr w \<Rightarrow>
                  (case todo (callers s ! c) of
                     [] \<Rightarrow> None
                   | t # ts \<Rightarrow>
                       Some (set_pc c (C_Unlock i)
                              (set_worker i
                                 (w\<lparr>functionsQueue := functionsQueue w @ [t]\<rparr>) s))))
         | C_Unlock i \<Rightarrow>
             (case at_worker (pool s) i of
                Inl e \<Rightarrow> Some (set_pc c (C_Raised e) s)
              | Inr w \<Rightarrow>
                  Some (set_pc c (C_Ret True) (set_worker i (w\<lparr>m_mxQueue := None\<rparr>) s)))
         | C_Ret b \<Rightarrow>
             Some (s\<lparr>callers := (callers s)[c := (callers s ! c)
                    \<lparr>todo := (if b then tl (todo (callers s ! c)) else todo (callers s ! c)),
                     pc := C_Call\<rparr>]\<rparr>)
         | C_Raised e \<Rightarrow> None))"

text \<open>
  One step of the thread of worker \<open>k\<close>. The one-second sleep and the log line between
  the wait loop and \<open>front()\<close> change nothing. \<open>front()\<close> and \<open>pop()\<close> on an empty queue
  are undefined behaviour.
\<close>

definition worker_step :: "nat \<Rightarrow> sys \<Rightarrow> sys option" where
  "worker_step k s =
     (case at_worker (pool s) k of
        Inl e \<Rightarrow> None
      | Inr w \<Rightarrow>
          (case thr w of
             W_Lock \<Rightarrow>
               (case m_mxQueue w of
                  Some other \<Rightarrow> None
                | None \<Rightarrow>
                    Some (set_worker k (w\<lparr>m_mxQueue := Some (Worker k), thr := W_Check\<rparr>) s))
           | W_Check \<Rightarrow>
               (case functionsQueue w of
                  [] \<Rightarrow> Some (set_worker k (w\<lparr>m_mxQueue := None, thr := W_Wait\<rparr>) s)
                | f # fs \<Rightarrow> Some (set_worker k (w\<lparr>thr := W_Front\<rparr>) s))
           | W_Wait \<Rightarrow>
               (case m_mxQueue w of
                  Some other \<Rightarrow> None
                | None \<Rightarrow>
                    Some (set_worker k (w\<lparr>m_mxQueue := Some (Worker k), thr := W_Check\<rparr>) s))
           | W_Front \<Rightarrow>
               (case functionsQueue w of
                  [] \<Rightarrow> Some (set_worker k (w\<lparr>thr := W_Crashed Empty_Queue\<rparr>) s)
                | f # fs \<Rightarrow> Some (set_worker k (w\<lparr>thr := W_Call f\<rparr>) s))
           | W_Call f \<Rightarrow>
               (case cap_f f (cap_param1 f) (cap_param2 f) of
                  Inl e \<Rightarrow> Some (set_worker k (w\<lparr>thr := W_Crashed e\<rparr>) s)
                | Inr v \<Rightarrow>
                    Some (set_worker k (w\<lparr>thr := W_Ready f\<rparr>)
                           (s\<lparr>vEvals := write_result f v (vEvals s)\<rparr>)))
           | W_Ready f \<Rightarrow>
               Some (set_worker k (w\<lparr>thr := W_Pop\<rparr>)
                      (s\<lparr>vEvals := write_ready f (vEvals s)\<rparr>))
           | W_Pop \<Rightarrow>
               (case functionsQueue w of
                  [] \<Rightarrow> Some (set_worker k (w\<lparr>thr := W_Crashed Empty_Queue\<rparr>) s)
                | f # fs \<Rightarrow> Some (set_worker k (w\<lparr>functionsQueue := fs, thr := W_Free\<rparr>) s))
           | W_Free \<Rightarrow> Some (set_worker k (w\<lparr>free := True, thr := W_Unlock\<rparr>) s)
           | W_Unlock \<Rightarrow> Some (set_worker k (w\<lparr>m_mxQueue := None, thr := W_Lock\<rparr>) s)
           | W_Crashed e \<Rightarrow> None))"

fun step :: "tid \<Rightarrow> sys \<Rightarrow> sys option" where
  "step (Caller c) s = caller_step c s"
| "step (Worker k) s = worker_step k s"

text \<open>A schedule names the thread that makes each step; a thread that cannot step stops the run.\<close>

fun run :: "tid list \<Rightarrow> sys \<Rightarrow> sys option" where
  "run [] s = Some s"
| "run (t # ts) s = (case step t s of None \<Rightarrow> None | Some s' \<Rightarrow> run ts s')"

inductive reachable :: "sys \<Rightarrow> sys \<Rightarrow> bool" for s0 :: sys where
  reach_init: "reachable s0 s0"
| reach_step: "reachable s0 s \<Longrightarrow> step t s = Some s' \<Longrightarrow> reachable s0 s'"

text \<open>
  The start of a program: a pool as the constructor left it, one calling thread for each
  list of evaluations, each about to make its first call, and the callers' memory.
\<close>

definition start :: "ThreadPool \<Rightarrow> task list list \<Rightarrow> evalStruct list \<Rightarrow> sys" where
  "start p tss m =
     \<lparr>pool = p, callers = map (\<lambda>ts. \<lparr>todo = ts, pc = C_Call\<rparr>) tss, vEvals = m\<rparr>"

text \<open>The arguments \<open>main\<close> passes for evaluation \<open>i\<close> (line 182), as the task they become.\<close>

definition task_of :: "evalStruct list \<Rightarrow> nat \<Rightarrow> task" where
  "task_of m i = mk_task (func (m ! i)) (param1 (m ! i)) (param2 (m ! i)) i i"

definition main_tasks :: "task list" where
  "main_tasks = map (task_of main_vEvals) [0..<nat nEvaluations]"

text \<open>A worker is executing a task body while its thread is inside \<open>f()\<close>.\<close>

fun executing :: "wpc \<Rightarrow> bool" where
  "executing (W_Call f) = True"
| "executing (W_Ready f) = True"
| "executing l = False"

section \<open>Predicates and scenarios used in the statements\<close>

text \<open>
  The constructor makes \<open>m_nThreads\<close> the number of workers, and nothing changes either
  afterwards.
\<close>

definition wf_pool :: "ThreadPool \<Rightarrow> bool" where
  "wf_pool p \<longleftrightarrow> m_nThreads p = int (length (m_vpThreads p))"

text \<open>The ordinal of the first worker whose flag is true (the number of workers if none is).\<close>

definition first_free :: "ThreadManager list \<Rightarrow> nat" where
  "first_free ws = length (takeWhile (\<lambda>w. \<not> free w) ws)"

text \<open>A worker that has been handed one task and has not started on it.\<close>

definition busy_worker :: "int \<Rightarrow> ThreadManager" where
  "busy_worker ident =
     (ThreadManager_new ident)\<lparr>free := False, functionsQueue := [mk_task myFunc_1 1 1 0 0]\<rparr>"

definition pool_busy_free_free :: ThreadPool where
  "pool_busy_free_free =
     \<lparr>m_nThreads = 3,
      m_vpThreads = [busy_worker 0, ThreadManager_new 1, ThreadManager_new 2]\<rparr>"

definition pool_all_busy :: ThreadPool where
  "pool_all_busy = \<lparr>m_nThreads = 2, m_vpThreads = [busy_worker 0, busy_worker 1]\<rparr>"

text \<open>What a state shows of its threads, workers and memory.\<close>

definition caller_pcs :: "sys \<Rightarrow> cpc list" where
  "caller_pcs s = map pc (callers s)"

definition mutexes :: "sys \<Rightarrow> tid option list" where
  "mutexes s = map m_mxQueue (m_vpThreads (pool s))"

definition flags :: "sys \<Rightarrow> bool list" where
  "flags s = map free (m_vpThreads (pool s))"

definition queued :: "sys \<Rightarrow> nat list list" where
  "queued s = map (\<lambda>w. map cap_result (functionsQueue w)) (m_vpThreads (pool s))"

definition in_body :: "sys \<Rightarrow> bool list" where
  "in_body s = map (\<lambda>w. executing (thr w)) (m_vpThreads (pool s))"

definition results :: "sys \<Rightarrow> int list" where
  "results s = map result (vEvals s)"

definition readyFlags :: "sys \<Rightarrow> bool list" where
  "readyFlags s = map readyFlag (vEvals s)"

text \<open>
  The state a schedule leads to (the state itself where some thread of the schedule
  cannot step).
\<close>

definition after :: "tid list \<Rightarrow> sys \<Rightarrow> sys" where
  "after ts s = (case run ts s of None \<Rightarrow> s | Some s' \<Rightarrow> s')"

definition runs :: "tid list \<Rightarrow> sys \<Rightarrow> bool" where
  "runs ts s = (case run ts s of None \<Rightarrow> False | Some s' \<Rightarrow> True)"

text \<open>
  All workers have drained: every calling thread has scheduled all its evaluations and
  every queue is empty.
\<close>

definition drained :: "sys \<Rightarrow> bool" where
  "drained s \<longleftrightarrow>
     list_all (\<lambda>c. todo c = []) (callers s) \<and>
     list_all (\<lambda>w. functionsQueue w = []) (m_vpThreads (pool s))"

text \<open>A pool of one worker and, for it, one or two calling threads with one evaluation each.\<close>

definition slot_3_4 :: evalStruct where
  "slot_3_4 = \<lparr>param1 = 3, param2 = 4, result = 0, readyFlag = False, func = myFunc_1\<rparr>"

definition one_worker_pool :: ThreadPool where
  "one_worker_pool = \<lparr>m_nThreads = 1, m_vpThreads = [ThreadManager_new 0]\<rparr>"

definition race_start :: sys where
  "race_start =
     start one_worker_pool
       [[task_of [slot_3_4, slot_3_4] 0], [task_of [slot_3_4, slot_3_4] 1]]
       [slot_3_4, slot_3_4]"

text \<open>
  Both callers read the flag of worker 0 (each: the call, then line 55); then the first
  goes through lines 56 to 64 and returns, then the second does.
\<close>

definition race_reads :: "tid list" where
  "race_reads = [Caller 0, Caller 0, Caller 1, Caller 1]"

definition race_schedule :: "tid list" where
  "race_schedule = race_reads @ replicate 4 (Caller 0) @ replicate 4 (Caller 1)"

definition single_start :: sys where
  "single_start = start one_worker_pool [[task_of [slot_3_4] 0]] [slot_3_4]"

text \<open>
  One call of \<open>evaluate\<close> that finds worker \<open>k\<close> to be the first free one, up to and
  including the return to the loop of \<open>main\<close>; and steps of worker \<open>k\<close>.
\<close>

definition dispatch_to :: "nat \<Rightarrow> tid list" where
  "dispatch_to k = replicate (k + 7) (Caller 0)"

definition serve :: "nat \<Rightarrow> nat \<Rightarrow> tid list" where
  "serve n k = replicate n (Worker k)"

text \<open>The program of \<open>main\<close>: four workers, one calling thread, the eleven evaluations.\<close>

definition main_pool :: ThreadPool where
  "main_pool = \<lparr>m_nThreads = nThreads, m_vpThreads = map ThreadManager_new [0, 1, 2, 3]\<rparr>"

definition main_start :: sys where
  "main_start = start main_pool [main_tasks] main_vEvals"

text \<open>
  One schedule of the program of \<open>main\<close>: four evaluations are handed to the four workers,
  each worker goes once through its loop body (eight steps), and so on.
\<close>

definition main_round :: "tid list" where
  "main_round =
     dispatch_to 0 @ dispatch_to 1 @ dispatch_to 2 @ dispatch_to 3 @
     serve 8 0 @ serve 8 1 @ serve 8 2 @ serve 8 3"

definition main_schedule :: "tid list" where
  "main_schedule =
     main_round @ main_round @
     dispatch_to 0 @ dispatch_to 1 @ dispatch_to 2 @ serve 8 0 @ serve 8 1 @ serve 8 2"

subsection \<open>Invariants of the reachable states\<close>

text \<open>
  The worker whose mutex a caller holds at a program point, and whether the thread of a
  worker holds its own mutex at a program point.
\<close>

fun caller_in_cs :: "cpc \<Rightarrow> nat option" where
  "caller_in_cs (C_SetBusy i) = Some i"
| "caller_in_cs (C_Push i) = Some i"
| "caller_in_cs (C_Unlock i) = Some i"
| "caller_in_cs l = None"

fun worker_in_cs :: "wpc \<Rightarrow> bool" where
  "worker_in_cs W_Lock = False"
| "worker_in_cs W_Wait = False"
| "worker_in_cs l = True"

definition lock_inv :: "sys \<Rightarrow> bool" where
  "lock_inv s \<longleftrightarrow>
     (\<forall>k < length (m_vpThreads (pool s)).
        (worker_in_cs (thr (m_vpThreads (pool s) ! k)) \<longleftrightarrow>
           m_mxQueue (m_vpThreads (pool s) ! k) = Some (Worker k)) \<and>
        (\<forall>c < length (callers s).
           caller_in_cs (pc (callers s ! c)) = Some k \<longleftrightarrow>
             m_mxQueue (m_vpThreads (pool s) ! k) = Some (Caller c)))"

text \<open>
  Flag and queue of worker \<open>k\<close> at each program point of its thread, when there is one
  calling thread and it is at \<open>l\<close>.
\<close>

fun fq_ok :: "cpc \<Rightarrow> nat \<Rightarrow> bool \<Rightarrow> task list \<Rightarrow> wpc \<Rightarrow> bool" where
  "fq_ok l k fr q W_Free = (\<not> fr \<and> q = [])"
| "fq_ok l k fr q W_Unlock = (fr \<and> q = [])"
| "fq_ok l k fr q W_Front = (\<not> fr \<and> length q = 1)"
| "fq_ok l k fr q (W_Call f) = (\<not> fr \<and> length q = 1)"
| "fq_ok l k fr q (W_Ready f) = (\<not> fr \<and> length q = 1)"
| "fq_ok l k fr q W_Pop = (\<not> fr \<and> length q = 1)"
| "fq_ok l k fr q (W_Crashed e) = (\<not> fr \<and> length q = 1)"
| "fq_ok l k fr q idle =
     (if l = C_SetBusy k then fr \<and> q = []
      else if l = C_Push k then \<not> fr \<and> q = []
      else if l = C_Unlock k then \<not> fr \<and> length q = 1
      else (fr \<longleftrightarrow> q = []) \<and> length q \<le> 1 \<and> (l = C_Lock k \<longrightarrow> fr))"

definition single_inv :: "sys \<Rightarrow> bool" where
  "single_inv s \<longleftrightarrow>
     length (callers s) = 1 \<and>
     (\<forall>k < length (m_vpThreads (pool s)).
        fq_ok (pc (callers s ! 0)) k (free (m_vpThreads (pool s) ! k))
          (functionsQueue (m_vpThreads (pool s) ! k)) (thr (m_vpThreads (pool s) ! k)))"

text \<open>
  The direct evaluation of the function of an evaluation on its inputs; a task that is
  one of the evaluations of the memory \<open>m0\<close>; a task that is in some queue or has set
  its ready flag.
\<close>

definition expected :: "evalStruct \<Rightarrow> error + int" where
  "expected e = func e (param1 e) (param2 e)"

definition good_task :: "evalStruct list \<Rightarrow> task \<Rightarrow> bool" where
  "good_task m0 t \<longleftrightarrow> cap_result t < length m0 \<and> t = task_of m0 (cap_result t)"

definition placed :: "sys \<Rightarrow> task \<Rightarrow> bool" where
  "placed s t \<longleftrightarrow>
     readyFlag (vEvals s ! cap_ready t) \<or>
     (\<exists>k < length (m_vpThreads (pool s)). t \<in> set (functionsQueue (m_vpThreads (pool s) ! k)))"

definition mem_inv :: "evalStruct list \<Rightarrow> evalStruct list \<Rightarrow> bool" where
  "mem_inv m0 m \<longleftrightarrow>
     length m = length m0 \<and>
     (\<forall>i < length m0.
        param1 (m ! i) = param1 (m0 ! i) \<and> param2 (m ! i) = param2 (m0 ! i) \<and>
        func (m ! i) = func (m0 ! i) \<and>
        (readyFlag (m ! i) \<longrightarrow> expected (m0 ! i) = Inr (result (m ! i))))"

fun body_ok :: "evalStruct list \<Rightarrow> evalStruct list \<Rightarrow> task list \<Rightarrow> wpc \<Rightarrow> bool" where
  "body_ok m0 m q (W_Call t) = (good_task m0 t \<and> q \<noteq> [] \<and> hd q = t)"
| "body_ok m0 m q (W_Ready t) =
     (good_task m0 t \<and> q \<noteq> [] \<and> hd q = t \<and>
      expected (m0 ! cap_result t) = Inr (result (m ! cap_result t)))"
| "body_ok m0 m q W_Pop = (q \<noteq> [] \<and> readyFlag (m ! cap_ready (hd q)))"
| "body_ok m0 m q l = True"

fun scheduled_pc :: "cpc \<Rightarrow> bool" where
  "scheduled_pc (C_Unlock i) = True"
| "scheduled_pc (C_Ret b) = b"
| "scheduled_pc l = False"

definition call_ok :: "sys \<Rightarrow> caller \<Rightarrow> bool" where
  "call_ok s c \<longleftrightarrow> (scheduled_pc (pc c) \<longrightarrow> todo c \<noteq> [] \<and> placed s (hd (todo c)))"

definition work_inv :: "evalStruct list \<Rightarrow> sys \<Rightarrow> bool" where
  "work_inv m0 s \<longleftrightarrow>
     mem_inv m0 (vEvals s) \<and>
     (\<forall>k < length (m_vpThreads (pool s)).
        (\<forall>t \<in> set (functionsQueue (m_vpThreads (pool s) ! k)). good_task m0 t) \<and>
        body_ok m0 (vEvals s) (functionsQueue (m_vpThreads (pool s) ! k))
          (thr (m_vpThreads (pool s) ! k))) \<and>
     (\<forall>c < length (callers s).
        (\<forall>t \<in> set (todo (callers s ! c)). good_task m0 t) \<and> call_ok s (callers s ! c)) \<and>
     (\<forall>i < length m0.
        placed s (task_of m0 i) \<or>
        (\<exists>c < length (callers s). task_of m0 i \<in> set (todo (callers s ! c))))"

section \<open>Proofs\<close>

subsection \<open>Arithmetic and the table of \<open>main\<close>\<close>

lemmas arith_defs =
  myFunc_1_def myFunc_2_def myFunc_3_def myFunc_4_def checked_def INT_MIN_def INT_MAX_def

lemma myFunc_4_neq: "myFunc_1 \<noteq> myFunc_4" "myFunc_2 \<noteq> myFunc_4" "myFunc_3 \<noteq> myFunc_4"
proof -
  have "myFunc_1 0 0 \<noteq> myFunc_4 0 0" "myFunc_2 0 0 \<noteq> myFunc_4 0 0"
    "myFunc_3 0 0 \<noteq> myFunc_4 0 0"
    by (simp_all add: arith_defs)
  then show "myFunc_1 \<noteq> myFunc_4" "myFunc_2 \<noteq> myFunc_4" "myFunc_3 \<noteq> myFunc_4"
    by metis+
qed

lemma main_vEvals_eq:
  "main_vEvals =
    [\<lparr>param1 = 0, param2 = 0, result = 0, readyFlag = False, func = myFunc_1\<rparr>,
     \<lparr>param1 = 2, param2 = 1, result = 0, readyFlag = False, func = myFunc_2\<rparr>,
     \<lparr>param1 = 4, param2 = 2, result = 0, readyFlag = False, func = myFunc_3\<rparr>,
     \<lparr>param1 = 6, param2 = 3, result = 0, readyFlag = False, func = myFunc_4\<rparr>,
     \<lparr>param1 = 8, param2 = 4, result = 0, readyFlag = False, func = myFunc_1\<rparr>,
     \<lparr>param1 = 10, param2 = 5, result = 0, readyFlag = False, func = myFunc_2\<rparr>,
     \<lparr>param1 = 12, param2 = 6, result = 0, readyFlag = False, func = myFunc_3\<rparr>,
     \<lparr>param1 = 14, param2 = 7, result = 0, readyFlag = False, func = myFunc_4\<rparr>,
     \<lparr>param1 = 16, param2 = 8, result = 0, readyFlag = False, func = myFunc_1\<rparr>,
     \<lparr>param1 = 18, param2 = 9, result = 0, readyFlag = False, func = myFunc_2\<rparr>,
     \<lparr>param1 = 20, param2 = 10, result = 0, readyFlag = False, func = myFunc_3\<rparr>]"
  by (simp add: main_vEvals_def build_vEvals.simps nEvaluations_def nFuncs_def funcs_def)

lemma below_nEvaluations:
  "i < nat nEvaluations \<Longrightarrow> i \<in> set [0, 1, 2, 3, 4, 5, 6, 7, 8, 9, 10]"
  unfolding nEvaluations_def by simp arith

text \<open>
  C10. \<open>myFunc_4\<close> divides its first argument by its second without a test, so a zero
  second argument is a division by zero. In the table \<open>main\<close> builds, evaluation \<open>i\<close> has
  the parameters \<open>(2i, i)\<close> and uses \<open>myFunc_4\<close> exactly when \<open>i mod 4 = 3\<close>, that is for
  \<open>i = 3\<close> and \<open>i = 7\<close>; there the second argument is not zero, and no evaluation of the
  table divides by zero.
\<close>

theorem main_divide_second_argument_nonzero:
  assumes "i < nat nEvaluations"
  shows "myFunc_4 a 0 = Inl Division_By_Zero
    \<and> (func (main_vEvals ! i) = myFunc_4 \<longleftrightarrow> int i mod nFuncs = 3)
    \<and> (int i mod nFuncs = 3 \<longleftrightarrow> i = 3 \<or> i = 7)
    \<and> param1 (main_vEvals ! i) = 2 * int i
    \<and> param2 (main_vEvals ! i) = int i
    \<and> (func (main_vEvals ! i) = myFunc_4 \<longrightarrow> param2 (main_vEvals ! i) \<noteq> 0)
    \<and> func (main_vEvals ! i) (param1 (main_vEvals ! i)) (param2 (main_vEvals ! i))
         \<noteq> Inl Division_By_Zero"
proof -
  have "myFunc_4 a 0 = Inl Division_By_Zero" by (simp add: myFunc_4_def)
  moreover have "\<forall>i \<in> set [0, 1, 2, 3, 4, 5, 6, 7, 8, 9, 10].
      (func (main_vEvals ! i) = myFunc_4 \<longleftrightarrow> int i mod nFuncs = 3)
    \<and> (int i mod nFuncs = 3 \<longleftrightarrow> i = 3 \<or> i = 7)
    \<and> param1 (main_vEvals ! i) = 2 * int i
    \<and> param2 (main_vEvals ! i) = int i
    \<and> (func (main_vEvals ! i) = myFunc_4 \<longrightarrow> param2 (main_vEvals ! i) \<noteq> 0)
    \<and> func (main_vEvals ! i) (param1 (main_vEvals ! i)) (param2 (main_vEvals ! i))
         \<noteq> Inl Division_By_Zero"
    unfolding main_vEvals_eq
    by (simp add: myFunc_4_neq nFuncs_def funcs_def arith_defs signed_divide_int_def)
  ultimately show ?thesis using below_nEvaluations [OF assms] by blast
qed

theorem main_divide_second_argument_nonzero_witness:
  "(3::nat) < nat nEvaluations \<and> func (main_vEvals ! 3) = myFunc_4
     \<and> param1 (main_vEvals ! 3) = 6 \<and> param2 (main_vEvals ! 3) = 3
     \<and> myFunc_4 6 3 = Inr 2 \<and> myFunc_4 6 0 = Inl Division_By_Zero"
proof -
  have h: "(3::nat) < nat nEvaluations" by (simp add: nEvaluations_def)
  have "myFunc_4 6 3 = Inr 2" by (simp add: arith_defs signed_divide_int_def)
  with h main_divide_second_argument_nonzero [OF h, of 6] show ?thesis
    by (simp add: nFuncs_def funcs_def)
qed

subsection \<open>The constructor\<close>

lemma ctor_loop_eq: "ctor_loop n i v = v @ map ThreadManager_new [i..n - 1]"
proof (induction n i v rule: ctor_loop.induct)
  case (1 n i v)
  show ?case
  proof (cases "i < n")
    case True
    then have "[i..n - 1] = i # [i + 1..n - 1]" by (simp add: upto_rec1)
    with True 1 show ?thesis by (simp add: ctor_loop.simps [of n i v])
  next
    case False
    then show ?thesis by (simp add: ctor_loop.simps [of n i v])
  qed
qed

lemma ThreadPool_new_workers:
  assumes "ThreadPool_new n = Inr p"
  shows "m_nThreads p = n" and "length (m_vpThreads p) = nat n"
    and "k < nat n \<Longrightarrow> m_vpThreads p ! k = ThreadManager_new (int k)"
    and "wf_pool p"
proof -
  from assms have n: "0 \<le> n"
    and p: "p = \<lparr>m_nThreads = n, m_vpThreads = map ThreadManager_new [0..n - 1]\<rparr>"
    by (auto simp: ThreadPool_new_def ctor_loop_eq split: if_splits)
  show "m_nThreads p = n" by (simp add: p)
  show len: "length (m_vpThreads p) = nat n" using n by (simp add: p)
  show "k < nat n \<Longrightarrow> m_vpThreads p ! k = ThreadManager_new (int k)"
    using n by (simp add: p nth_upto)
  show "wf_pool p" using n len by (simp add: wf_pool_def p)
qed

text \<open>
  C9, as the claim states it, fails for a worker count of zero: the constructor has no
  test of the count, and a count of zero yields a pool without workers.
\<close>

theorem ThreadPool_new_zero_succeeds:
  "ThreadPool_new 0 = Inr \<lparr>m_nThreads = 0, m_vpThreads = []\<rparr>"
  by (simp add: ThreadPool_new_def ctor_loop.simps)

text \<open>
  C9, amended. A negative worker count fails at construction (\<open>reserve\<close> throws
  \<open>std::length_error\<close>) and no pool is created. Every count \<open>n \<ge> 0\<close> succeeds and yields
  exactly \<open>n\<close> workers; worker \<open>k\<close> has the ident \<open>k\<close>, is free, has an empty queue and an
  unlocked mutex, and its thread is at the top of its service loop. For \<open>n = 0\<close> the pool
  has no workers and every \<open>evaluate\<close> on it returns false.
\<close>

theorem ThreadPool_new_count:
  "(n < 0 \<longrightarrow> ThreadPool_new n = Inl Length_Error) \<and>
   (0 \<le> n \<longrightarrow>
      (\<exists>p. ThreadPool_new n = Inr p \<and> m_nThreads p = n \<and> int (length (m_vpThreads p)) = n \<and>
           (\<forall>k < length (m_vpThreads p).
              m_vpThreads p ! k =
                \<lparr>m_mxQueue = None, functionsQueue = [], free = True, m_id = int k,
                 thr = W_Lock\<rparr>) \<and>
           (n = 0 \<longrightarrow> evaluate p f a b res rdy = Returned (False, p))))"
proof (intro conjI impI)
  assume "n < 0"
  then show "ThreadPool_new n = Inl Length_Error" by (simp add: ThreadPool_new_def)
next
  assume n: "0 \<le> n"
  then obtain p where p: "ThreadPool_new n = Inr p" by (simp add: ThreadPool_new_def)
  note w = ThreadPool_new_workers [OF p]
  have "n = 0 \<longrightarrow> evaluate p f a b res rdy = Returned (False, p)"
    using w(1) by (simp add: evaluate_def evaluate_loop.simps)
  with p w n
  show "\<exists>p. ThreadPool_new n = Inr p \<and> m_nThreads p = n \<and> int (length (m_vpThreads p)) = n \<and>
           (\<forall>k < length (m_vpThreads p).
              m_vpThreads p ! k =
                \<lparr>m_mxQueue = None, functionsQueue = [], free = True, m_id = int k,
                 thr = W_Lock\<rparr>) \<and>
           (n = 0 \<longrightarrow> evaluate p f a b res rdy = Returned (False, p))"
    by (simp add: ThreadManager_new_def)
qed

theorem ThreadPool_new_count_witness:
  "ThreadPool_new (- 1) = Inl Length_Error \<and>
   (\<exists>p. ThreadPool_new 2 = Inr p \<and> m_nThreads p = 2 \<and> length (m_vpThreads p) = 2 \<and>
      m_vpThreads p ! 1 =
        \<lparr>m_mxQueue = None, functionsQueue = [], free = True, m_id = 1, thr = W_Lock\<rparr>)"
  using ThreadPool_new_count [of "- 1"] ThreadPool_new_count [of 2]
  by auto

subsection \<open>The task body\<close>

lemma evaluate_loop_enqueues:
  "evaluate_loop p t i = Returned (True, p') \<Longrightarrow>
     \<exists>j < length (m_vpThreads p). free (m_vpThreads p ! j) \<and>
        p' = upd_worker j ((m_vpThreads p ! j)
          \<lparr>free := False, functionsQueue := functionsQueue (m_vpThreads p ! j) @ [t]\<rparr>) p"
proof (induction p t i rule: evaluate_loop.induct)
  case (1 p t i)
  note ev = "1.prems" [unfolded evaluate_loop.simps [of p t i]]
  show ?case
  proof (cases "int i < m_nThreads p")
    case False
    with ev show ?thesis by simp
  next
    case True
    with ev obtain w where w: "at_worker p i = Inr w"
      by (cases "at_worker p i") auto
    then have i: "i < length (m_vpThreads p)" and wi: "w = m_vpThreads p ! i"
      by (auto simp: at_worker_def split: if_splits)
    show ?thesis
    proof (cases "free w")
      case fr: True
      with ev True w wi i show ?thesis
        by (auto split: option.splits)
    next
      case False
      with ev True w have "evaluate_loop p t (Suc i) = Returned (True, p')" by simp
      with "1.IH" True w False show ?thesis by simp
    qed
  qed
qed

lemma task_body_trace:
  assumes "cap_f t (cap_param1 t) (cap_param2 t) = Inr v"
    and "cap_result t < length m" and "cap_ready t < length m"
    and "\<not> readyFlag (m ! cap_ready t)"
  shows "task_trace t m = Inr [m, write_result t v m, write_ready t (write_result t v m)]"
    and "run_task t m = Inr (write_ready t (write_result t v m))"
    and "result (write_result t v m ! cap_result t) = v"
    and "\<not> readyFlag (write_result t v m ! cap_ready t)"
    and "result (write_ready t (write_result t v m) ! cap_result t) = v"
    and "readyFlag (write_ready t (write_result t v m) ! cap_ready t)"
  using assms
  by (auto simp: task_trace_def run_task_def write_result_def write_ready_def nth_list_update)

text \<open>
  C4. A call of \<open>evaluate\<close> with \<open>f\<close>, \<open>a\<close>, \<open>b\<close> and the two references that returns true
  has appended the closure \<open>mk_task f a b res rdy\<close> to the queue of a worker that was
  free. When a worker runs the body of that closure (it is at the call \<open>f()\<close>) and
  \<open>f(a, b)\<close> returns \<open>v\<close>, its first step writes \<open>v\<close> to the result slot and leaves the
  ready flag as it was, and its second step sets the ready flag: the three states of
  the memory are those of the body taken statement by statement. Started with the flag
  false, in each of the three states a true ready flag comes with the result \<open>f(a, b)\<close>.
\<close>

theorem task_writes_result_before_ready:
  assumes "evaluate p f a b res rdy = Returned (True, p')"
    and "k < length (m_vpThreads (pool s))"
    and "thr (m_vpThreads (pool s) ! k) = W_Call (mk_task f a b res rdy)"
    and "f a b = Inr v"
    and "res < length (vEvals s)" and "rdy < length (vEvals s)"
    and "\<not> readyFlag (vEvals s ! rdy)"
  shows "(\<exists>j < length (m_vpThreads p). free (m_vpThreads p ! j) \<and> \<not> free (m_vpThreads p' ! j) \<and>
        functionsQueue (m_vpThreads p' ! j) =
          functionsQueue (m_vpThreads p ! j) @ [mk_task f a b res rdy])
    \<and> runs (serve 2 k) s
    \<and> task_trace (mk_task f a b res rdy) (vEvals s) =
        Inr [vEvals s, vEvals (after (serve 1 k) s), vEvals (after (serve 2 k) s)]
    \<and> run_task (mk_task f a b res rdy) (vEvals s) = Inr (vEvals (after (serve 2 k) s))
    \<and> thr (m_vpThreads (pool (after (serve 1 k) s)) ! k) = W_Ready (mk_task f a b res rdy)
    \<and> result (vEvals (after (serve 1 k) s) ! res) = v
    \<and> \<not> readyFlag (vEvals (after (serve 1 k) s) ! rdy)
    \<and> thr (m_vpThreads (pool (after (serve 2 k) s)) ! k) = W_Pop
    \<and> result (vEvals (after (serve 2 k) s) ! res) = v
    \<and> readyFlag (vEvals (after (serve 2 k) s) ! rdy)
    \<and> (\<forall>m' \<in> set [vEvals s, vEvals (after (serve 1 k) s), vEvals (after (serve 2 k) s)].
          readyFlag (m' ! rdy) \<longrightarrow> result (m' ! res) = v)"
proof -
  let ?t = "mk_task f a b res rdy"
  let ?w = "m_vpThreads (pool s) ! k"
  let ?m1 = "write_result ?t v (vEvals s)"
  let ?m2 = "write_ready ?t ?m1"
  have caps: "cap_f ?t (cap_param1 ?t) (cap_param2 ?t) = Inr v"
    "cap_result ?t = res" "cap_ready ?t = rdy"
    using assms(4) by (simp_all add: mk_task_def)
  from evaluate_loop_enqueues [OF assms(1) [unfolded evaluate_def]]
  have enq: "\<exists>j < length (m_vpThreads p). free (m_vpThreads p ! j) \<and> \<not> free (m_vpThreads p' ! j) \<and>
        functionsQueue (m_vpThreads p' ! j) = functionsQueue (m_vpThreads p ! j) @ [?t]"
    by (auto simp: upd_worker_def)
  define s1 where "s1 = set_worker k (?w\<lparr>thr := W_Ready ?t\<rparr>) (s\<lparr>vEvals := ?m1\<rparr>)"
  define s2 where "s2 = set_worker k (?w\<lparr>thr := W_Pop\<rparr>) (s\<lparr>vEvals := ?m2\<rparr>)"
  have st1: "worker_step k s = Some s1"
    using assms(2,3) caps(1) by (simp add: worker_step_def at_worker_def s1_def)
  have st2: "worker_step k s1 = Some s2"
    using assms(2)
    by (simp add: worker_step_def at_worker_def s1_def s2_def set_worker_def upd_worker_def)
  have r1: "run (serve 1 k) s = Some s1" using st1 by (simp add: serve_def)
  have r2: "run (serve 2 k) s = Some s2" using st1 st2 by (simp add: serve_def numeral_2_eq_2)
  have a1: "after (serve 1 k) s = s1" and a2: "after (serve 2 k) s = s2"
    and rn: "runs (serve 2 k) s"
    unfolding after_def runs_def r1 r2 by simp_all
  have v1: "vEvals s1 = ?m1" "thr (m_vpThreads (pool s1) ! k) = W_Ready ?t"
    using assms(2) by (simp_all add: s1_def set_worker_def upd_worker_def)
  have v2: "vEvals s2 = ?m2" "thr (m_vpThreads (pool s2) ! k) = W_Pop"
    using assms(2) by (simp_all add: s2_def set_worker_def upd_worker_def)
  have h: "cap_result ?t < length (vEvals s)" "cap_ready ?t < length (vEvals s)"
    "\<not> readyFlag (vEvals s ! cap_ready ?t)"
    using assms(5-7) caps by simp_all
  note tb = task_body_trace [OF caps(1) h, unfolded caps(2,3)]
  from enq rn tb assms(7) show ?thesis
    unfolding a1 a2 v1 v2 by simp
qed

theorem task_writes_result_before_ready_witness:
  "evaluate one_worker_pool myFunc_1 3 4 0 0 =
     Returned (True, \<lparr>m_nThreads = 1, m_vpThreads =
       [(ThreadManager_new 0)\<lparr>free := False, functionsQueue := [mk_task myFunc_1 3 4 0 0]\<rparr>]\<rparr>)
   \<and> thr (m_vpThreads (pool (after (dispatch_to 0 @ serve 3 0) single_start)) ! 0) =
       W_Call (mk_task myFunc_1 3 4 0 0)
   \<and> myFunc_1 3 4 = Inr 7
   \<and> results (after (dispatch_to 0 @ serve 3 0) single_start) = [0]
   \<and> readyFlags (after (dispatch_to 0 @ serve 3 0) single_start) = [False]
   \<and> result (vEvals (after (serve 1 0) (after (dispatch_to 0 @ serve 3 0) single_start)) ! 0) = 7
   \<and> \<not> readyFlag (vEvals (after (serve 1 0)
          (after (dispatch_to 0 @ serve 3 0) single_start)) ! 0)
   \<and> result (vEvals (after (serve 2 0) (after (dispatch_to 0 @ serve 3 0) single_start)) ! 0) = 7
   \<and> readyFlag (vEvals (after (serve 2 0) (after (dispatch_to 0 @ serve 3 0) single_start)) ! 0)"
proof -
  let ?s = "after (dispatch_to 0 @ serve 3 0) single_start"
  let ?t = "mk_task myFunc_1 3 4 0 0"
  let ?p' = "\<lparr>m_nThreads = 1, m_vpThreads =
       [(ThreadManager_new 0)\<lparr>free := False, functionsQueue := [?t]\<rparr>]\<rparr>"
  have t: "task_of [slot_3_4] 0 = ?t" by (simp add: task_of_def slot_3_4_def)
  have s: "?s = set_worker 0 ((ThreadManager_new 0)
      \<lparr>m_mxQueue := Some (Worker 0), functionsQueue := [?t], free := False, thr := W_Call ?t\<rparr>)
      (single_start\<lparr>callers := [\<lparr>todo = [], pc = C_Call\<rparr>]\<rparr>)"
    unfolding single_start_def t
    by (simp add: after_def dispatch_to_def serve_def eval_nat_numeral start_def
        one_worker_pool_def caller_step_def worker_step_def at_worker_def set_worker_def
        set_pc_def upd_worker_def ThreadManager_new_def)
  have h1: "evaluate one_worker_pool myFunc_1 3 4 0 0 = Returned (True, ?p')"
    by (simp add: evaluate_def evaluate_loop.simps one_worker_pool_def at_worker_def
        upd_worker_def ThreadManager_new_def)
  have h2: "0 < length (m_vpThreads (pool ?s))"
    unfolding s by (simp add: single_start_def one_worker_pool_def start_def set_worker_def upd_worker_def)
  have h3: "thr (m_vpThreads (pool ?s) ! 0) = W_Call ?t"
    unfolding s by (simp add: single_start_def one_worker_pool_def start_def set_worker_def upd_worker_def)
  have h4: "myFunc_1 3 4 = Inr 7" by (simp add: arith_defs)
  have v: "results ?s = [0]" "readyFlags ?s = [False]" by code_simp+
  from v have h5: "0 < length (vEvals ?s)" and h7: "\<not> readyFlag (vEvals ?s ! 0)"
    by (auto simp: results_def readyFlags_def map_eq_Cons_conv)
  from task_writes_result_before_ready [OF h1 h2 h3 h4 h5 h5 h7] h1 h3 h4 v
  show ?thesis by simp
qed

subsection \<open>\<open>evaluate\<close> as one call\<close>

lemma first_free_props:
  "\<exists>w \<in> set ws. free w \<Longrightarrow>
     first_free ws < length ws \<and> free (ws ! first_free ws) \<and>
     (\<forall>j < first_free ws. \<not> free (ws ! j))"
proof (induction ws)
  case Nil
  then show ?case by simp
next
  case (Cons w ws)
  show ?case
  proof (cases "free w")
    case True
    then show ?thesis by (simp add: first_free_def)
  next
    case False
    with Cons have ih: "first_free ws < length ws \<and> free (ws ! first_free ws) \<and>
        (\<forall>j < first_free ws. \<not> free (ws ! j))"
      by simp
    from False have ff: "first_free (w # ws) = Suc (first_free ws)"
      by (simp add: first_free_def)
    show ?thesis unfolding ff using ih False by (auto simp: less_Suc_eq_0_disj)
  qed
qed

lemma evaluate_loop_hit:
  assumes "wf_pool p" and "k < length (m_vpThreads p)" and "free (m_vpThreads p ! k)"
    and "m_mxQueue (m_vpThreads p ! k) = None"
  shows "i \<le> k \<Longrightarrow> \<forall>j. i \<le> j \<and> j < k \<longrightarrow> \<not> free (m_vpThreads p ! j) \<Longrightarrow>
    evaluate_loop p t i = Returned (True, upd_worker k ((m_vpThreads p ! k)
      \<lparr>free := False, functionsQueue := functionsQueue (m_vpThreads p ! k) @ [t]\<rparr>) p)"
proof (induction "k - i" arbitrary: i)
  case 0
  then have "i = k" by simp
  with assms show ?case
    by (simp add: evaluate_loop.simps [of p t k] wf_pool_def at_worker_def)
next
  case (Suc d)
  then have lt: "i < k" and nf: "\<not> free (m_vpThreads p ! i)" by auto
  from Suc have "evaluate_loop p t (Suc i) = Returned (True, upd_worker k ((m_vpThreads p ! k)
      \<lparr>free := False, functionsQueue := functionsQueue (m_vpThreads p ! k) @ [t]\<rparr>) p)"
    by (intro Suc.hyps(1)) auto
  with lt nf assms show ?case
    by (simp add: evaluate_loop.simps [of p t i] wf_pool_def at_worker_def)
qed

lemma evaluate_loop_miss:
  assumes "wf_pool p" and "\<forall>w \<in> set (m_vpThreads p). \<not> free w"
  shows "evaluate_loop p t i = Returned (False, p)"
proof (induction "length (m_vpThreads p) - i" arbitrary: i)
  case 0
  with assms show ?case by (simp add: evaluate_loop.simps [of p t i] wf_pool_def)
next
  case (Suc d)
  then have lt: "i < length (m_vpThreads p)" by simp
  with assms have nf: "\<not> free (m_vpThreads p ! i)" by simp
  from Suc have "evaluate_loop p t (Suc i) = Returned (False, p)"
    by (intro Suc.hyps(1)) simp
  with lt nf assms show ?case
    by (simp add: evaluate_loop.simps [of p t i] wf_pool_def at_worker_def)
qed

text \<open>
  The two models of \<open>evaluate\<close> agree: whenever the uninterrupted call returns, the
  calling thread, stepping alone from the call, reaches the return with the same value
  and the same pool.
\<close>

lemma caller_scan_refines:
  assumes "pool s = p" and "c < length (callers s)" and "pc (callers s ! c) = C_Scan i"
    and "todo (callers s ! c) = t # ts" and "evaluate_loop p t i = Returned (b, p')"
  shows "\<exists>n. run (replicate n (Caller c)) s =
      Some (s\<lparr>pool := p', callers := (callers s)[c := (callers s ! c)\<lparr>pc := C_Ret b\<rparr>]\<rparr>)"
  using assms
proof (induction p t i arbitrary: s rule: evaluate_loop.induct)
  case (1 p t i)
  note ev = "1.prems"(5) [unfolded evaluate_loop.simps [of p t i]]
  show ?case
  proof (cases "int i < m_nThreads p")
    case False
    with ev have r: "b = False" "p' = p" by simp_all
    have "run (replicate 1 (Caller c)) s =
        Some (s\<lparr>pool := p', callers := (callers s)[c := (callers s ! c)\<lparr>pc := C_Ret b\<rparr>]\<rparr>)"
      using False "1.prems"(1-4) r by (simp add: caller_step_def set_pc_def)
    then show ?thesis by blast
  next
    case True
    with ev obtain w where w: "at_worker p i = Inr w"
      by (cases "at_worker p i") auto
    then have i: "i < length (m_vpThreads p)" and wi: "w = m_vpThreads p ! i"
      by (auto simp: at_worker_def split: if_splits)
    show ?thesis
    proof (cases "free w")
      case fr: True
      with ev True w have mx: "m_mxQueue w = None"
        and r: "b = True"
          "p' = upd_worker i (w\<lparr>free := False, functionsQueue := functionsQueue w @ [t]\<rparr>) p"
        by (auto split: option.splits)
      have un: "\<And>q. (m_vpThreads p ! i)\<lparr>free := False, functionsQueue := q, m_mxQueue := None\<rparr> =
          (m_vpThreads p ! i)\<lparr>free := False, functionsQueue := q\<rparr>"
        using mx wi by (cases "m_vpThreads p ! i") simp
      have "run (replicate 5 (Caller c)) s =
        Some (s\<lparr>pool := p', callers := (callers s)[c := (callers s ! c)\<lparr>pc := C_Ret b\<rparr>]\<rparr>)"
        using True "1.prems"(1-4) r fr mx i wi
        by (simp add: eval_nat_numeral caller_step_def set_pc_def set_worker_def upd_worker_def
            at_worker_def un)
      then show ?thesis by blast
    next
      case nf: False
      let ?s1 = "set_pc c (C_Scan (Suc i)) s"
      from ev True w nf have ev': "evaluate_loop p t (Suc i) = Returned (b, p')" by simp
      have st: "caller_step c s = Some ?s1"
        using True "1.prems"(1-4) nf i wi by (simp add: caller_step_def at_worker_def)
      have "\<exists>n. run (replicate n (Caller c)) ?s1 =
        Some (?s1\<lparr>pool := p', callers := (callers ?s1)[c := (callers ?s1 ! c)\<lparr>pc := C_Ret b\<rparr>]\<rparr>)"
        using "1.prems"(1-4) ev' True w nf
        by (intro "1.IH") (simp_all add: set_pc_def)
      then obtain n where n: "run (replicate n (Caller c)) ?s1 =
        Some (?s1\<lparr>pool := p', callers := (callers ?s1)[c := (callers ?s1 ! c)\<lparr>pc := C_Ret b\<rparr>]\<rparr>)"
        by blast
      have "run (replicate (Suc n) (Caller c)) s =
        Some (s\<lparr>pool := p', callers := (callers s)[c := (callers s ! c)\<lparr>pc := C_Ret b\<rparr>]\<rparr>)"
        using st n "1.prems"(2) by (simp add: set_pc_def)
      then show ?thesis by blast
    qed
  qed
qed

lemma caller_alone_refines_evaluate:
  assumes "c < length (callers s)" and "pc (callers s ! c) = C_Call"
    and "todo (callers s ! c) = mk_task f a b' res rdy # ts"
    and "evaluate (pool s) f a b' res rdy = Returned (b, p')"
  shows "\<exists>n. run (replicate n (Caller c)) s =
      Some (s\<lparr>pool := p', callers := (callers s)[c := (callers s ! c)\<lparr>pc := C_Ret b\<rparr>]\<rparr>)"
proof -
  let ?s1 = "set_pc c (C_Scan 0) s"
  have st: "caller_step c s = Some ?s1"
    using assms(1-3) by (simp add: caller_step_def)
  from caller_scan_refines [of ?s1 "pool s" c 0 "mk_task f a b' res rdy" ts b p']
  obtain n where n: "run (replicate n (Caller c)) ?s1 =
        Some (?s1\<lparr>pool := p', callers := (callers ?s1)[c := (callers ?s1 ! c)\<lparr>pc := C_Ret b\<rparr>]\<rparr>)"
    using assms by (auto simp: set_pc_def evaluate_def)
  have "run (replicate (Suc n) (Caller c)) s =
        Some (s\<lparr>pool := p', callers := (callers s)[c := (callers s ! c)\<lparr>pc := C_Ret b\<rparr>]\<rparr>)"
    using st n assms(1) by (simp add: set_pc_def)
  then show ?thesis by blast
qed

text \<open>
  C2. In a pool in which some worker's flag is true, a call of \<open>evaluate\<close> that is not
  kept waiting for the mutex of the first such worker returns true; it has gone through
  the workers in ascending order, and the pool it leaves differs from the one it found
  in that one worker only, the first whose flag was true: that worker's flag is now
  false and its queue is longer by exactly the new task, at the back.
\<close>

theorem evaluate_claims_first_free_worker:
  assumes "wf_pool p" and "\<exists>w \<in> set (m_vpThreads p). free w"
    and "m_mxQueue (m_vpThreads p ! first_free (m_vpThreads p)) = None"
  shows "first_free (m_vpThreads p) < length (m_vpThreads p)
      \<and> free (m_vpThreads p ! first_free (m_vpThreads p))
      \<and> (\<forall>j < first_free (m_vpThreads p). \<not> free (m_vpThreads p ! j))
      \<and> evaluate p f a b res rdy =
          Returned (True, p\<lparr>m_vpThreads := (m_vpThreads p)
            [first_free (m_vpThreads p) := (m_vpThreads p ! first_free (m_vpThreads p))
               \<lparr>free := False,
                functionsQueue :=
                  functionsQueue (m_vpThreads p ! first_free (m_vpThreads p))
                    @ [mk_task f a b res rdy]\<rparr>]\<rparr>)"
proof -
  let ?k = "first_free (m_vpThreads p)"
  from first_free_props [OF assms(2)]
  have ff: "?k < length (m_vpThreads p)" "free (m_vpThreads p ! ?k)"
    "\<forall>j < ?k. \<not> free (m_vpThreads p ! j)"
    by simp_all
  have "evaluate_loop p (mk_task f a b res rdy) 0 =
      Returned (True, upd_worker ?k ((m_vpThreads p ! ?k)
        \<lparr>free := False,
         functionsQueue := functionsQueue (m_vpThreads p ! ?k) @ [mk_task f a b res rdy]\<rparr>) p)"
    using ff by (intro evaluate_loop_hit assms) auto
  with ff show ?thesis
    by (simp add: evaluate_def upd_worker_def)
qed

theorem evaluate_claims_first_free_worker_witness:
  "evaluate pool_busy_free_free myFunc_1 3 4 0 0 =
     Returned (True,
       \<lparr>m_nThreads = 3,
        m_vpThreads =
          [busy_worker 0,
           (ThreadManager_new 1)
             \<lparr>free := False, functionsQueue := [mk_task myFunc_1 3 4 0 0]\<rparr>,
           ThreadManager_new 2]\<rparr>)"
proof -
  have ff: "first_free (m_vpThreads pool_busy_free_free) = 1"
    by (simp add: first_free_def pool_busy_free_free_def busy_worker_def ThreadManager_new_def)
  have h1: "wf_pool pool_busy_free_free"
    by (simp add: wf_pool_def pool_busy_free_free_def)
  have h2: "\<exists>w \<in> set (m_vpThreads pool_busy_free_free). free w"
    by (simp add: pool_busy_free_free_def ThreadManager_new_def)
  have h3: "m_mxQueue (m_vpThreads pool_busy_free_free
      ! first_free (m_vpThreads pool_busy_free_free)) = None"
    unfolding ff by (simp add: pool_busy_free_free_def ThreadManager_new_def)
  from evaluate_claims_first_free_worker [OF h1 h2 h3, of myFunc_1 3 4 0 0] show ?thesis
    unfolding ff by (simp add: pool_busy_free_free_def ThreadManager_new_def)
qed

text \<open>
  C3. In a pool in which no worker's flag is true, \<open>evaluate\<close> returns false and leaves
  the pool exactly as it found it: no queue, flag or mutex has changed and the task is
  nowhere.
\<close>

theorem evaluate_all_busy_returns_false:
  assumes "wf_pool p" and "\<forall>w \<in> set (m_vpThreads p). \<not> free w"
  shows "evaluate p f a b res rdy = Returned (False, p)"
  using evaluate_loop_miss [OF assms] by (simp add: evaluate_def)

theorem evaluate_all_busy_returns_false_witness:
  "evaluate pool_all_busy myFunc_1 3 4 0 0 = Returned (False, pool_all_busy)"
proof -
  have h1: "wf_pool pool_all_busy" by (simp add: wf_pool_def pool_all_busy_def)
  have h2: "\<forall>w \<in> set (m_vpThreads pool_all_busy). \<not> free w"
    by (simp add: pool_all_busy_def busy_worker_def)
  from evaluate_all_busy_returns_false [OF h1 h2] show ?thesis .
qed

subsection \<open>Steps of the threads and the invariants\<close>

lemma set_worker_simps [simp]:
  "m_vpThreads (pool (set_worker i w s)) = (m_vpThreads (pool s))[i := w]"
  "m_nThreads (pool (set_worker i w s)) = m_nThreads (pool s)"
  "callers (set_worker i w s) = callers s"
  "vEvals (set_worker i w s) = vEvals s"
  by (simp_all add: set_worker_def upd_worker_def)

lemma set_pc_simps [simp]:
  "pool (set_pc c l s) = pool s"
  "callers (set_pc c l s) = (callers s)[c := (callers s ! c)\<lparr>pc := l\<rparr>]"
  "vEvals (set_pc c l s) = vEvals s"
  by (simp_all add: set_pc_def)

lemma at_worker_Inr [simp]:
  "at_worker p i = Inr w \<longleftrightarrow> i < length (m_vpThreads p) \<and> w = m_vpThreads p ! i"
  by (auto simp: at_worker_def)

lemma at_worker_Inl [simp]:
  "at_worker p i = Inl e \<longleftrightarrow> \<not> i < length (m_vpThreads p) \<and> e = Out_Of_Range"
  by (auto simp: at_worker_def)


lemma worker_step_length:
  "worker_step j s = Some s' \<Longrightarrow>
     j < length (m_vpThreads (pool s)) \<and>
     length (m_vpThreads (pool s')) = length (m_vpThreads (pool s)) \<and>
     m_nThreads (pool s') = m_nThreads (pool s) \<and> callers s' = callers s"
  unfolding worker_step_def
  by (auto split: sum.splits wpc.splits option.splits list.splits)

lemma caller_step_length:
  "caller_step c s = Some s' \<Longrightarrow>
     c < length (callers s) \<and> length (callers s') = length (callers s) \<and>
     length (m_vpThreads (pool s')) = length (m_vpThreads (pool s)) \<and>
     m_nThreads (pool s') = m_nThreads (pool s) \<and> vEvals s' = vEvals s"
  unfolding caller_step_def
  by (auto split: sum.splits cpc.splits option.splits list.splits if_splits)

lemma lock_inv_worker_step:
  assumes "lock_inv s" and "worker_step j s = Some s'"
  shows "lock_inv s'"
  unfolding lock_inv_def
proof (intro allI impI)
  fix k
  assume "k < length (m_vpThreads (pool s'))"
  with worker_step_length [OF assms(2)]
  have k: "k < length (m_vpThreads (pool s))" and j: "j < length (m_vpThreads (pool s))"
    by simp_all
  from assms(1) k j
  have Ik: "(worker_in_cs (thr (m_vpThreads (pool s) ! k)) \<longleftrightarrow>
           m_mxQueue (m_vpThreads (pool s) ! k) = Some (Worker k)) \<and>
        (\<forall>c < length (callers s).
           caller_in_cs (pc (callers s ! c)) = Some k \<longleftrightarrow>
             m_mxQueue (m_vpThreads (pool s) ! k) = Some (Caller c))"
    by (simp add: lock_inv_def)
  show "(worker_in_cs (thr (m_vpThreads (pool s') ! k)) \<longleftrightarrow>
           m_mxQueue (m_vpThreads (pool s') ! k) = Some (Worker k)) \<and>
        (\<forall>c < length (callers s').
           caller_in_cs (pc (callers s' ! c)) = Some k \<longleftrightarrow>
             m_mxQueue (m_vpThreads (pool s') ! k) = Some (Caller c))"
  proof (cases "k = j")
    case False
    with assms(2) k have "m_vpThreads (pool s') ! k = m_vpThreads (pool s) ! k"
      "callers s' = callers s"
      unfolding worker_step_def
      by (auto split: sum.splits wpc.splits option.splits list.splits)
    with Ik show ?thesis by simp
  next
    case True
    with Ik assms(2) k show ?thesis
      unfolding worker_step_def
      by (auto split: sum.splits wpc.splits option.splits list.splits)
  qed
qed


lemma lock_inv_caller_step:
  assumes "lock_inv s" and "caller_step c s = Some s'"
  shows "lock_inv s'"
  unfolding lock_inv_def
proof (intro allI impI)
  fix k
  assume "k < length (m_vpThreads (pool s'))"
  with caller_step_length [OF assms(2)]
  have k: "k < length (m_vpThreads (pool s))" and c: "c < length (callers s)"
    by simp_all
  from assms(1) k
  have Ik: "(worker_in_cs (thr (m_vpThreads (pool s) ! k)) \<longleftrightarrow>
           m_mxQueue (m_vpThreads (pool s) ! k) = Some (Worker k))"
        "\<And>d. d < length (callers s) \<Longrightarrow>
           caller_in_cs (pc (callers s ! d)) = Some k \<longleftrightarrow>
             m_mxQueue (m_vpThreads (pool s) ! k) = Some (Caller d)"
    by (simp_all add: lock_inv_def)
  note Ic = Ik(2) [OF c]
  show "(worker_in_cs (thr (m_vpThreads (pool s') ! k)) \<longleftrightarrow>
           m_mxQueue (m_vpThreads (pool s') ! k) = Some (Worker k)) \<and>
        (\<forall>d < length (callers s').
           caller_in_cs (pc (callers s' ! d)) = Some k \<longleftrightarrow>
             m_mxQueue (m_vpThreads (pool s') ! k) = Some (Caller d))"
  proof (intro conjI allI impI)
    show "worker_in_cs (thr (m_vpThreads (pool s') ! k)) \<longleftrightarrow>
           m_mxQueue (m_vpThreads (pool s') ! k) = Some (Worker k)"
      using Ik(1) Ic assms(2) k c unfolding caller_step_def
      by (auto simp: nth_list_update split: sum.splits cpc.splits option.splits list.splits if_splits)
  next
    fix d
    assume "d < length (callers s')"
    with caller_step_length [OF assms(2)] have d: "d < length (callers s)" by simp
    show "caller_in_cs (pc (callers s' ! d)) = Some k \<longleftrightarrow>
             m_mxQueue (m_vpThreads (pool s') ! k) = Some (Caller d)"
      using Ik(2) [OF d] Ic assms(2) k c d unfolding caller_step_def
      by (auto simp: nth_list_update split: sum.splits cpc.splits option.splits list.splits if_splits)
  qed
qed


lemma lock_inv_excl:
  assumes "lock_inv s" and "k < length (m_vpThreads (pool s))" and "c < length (callers s)"
  shows "worker_in_cs (thr (m_vpThreads (pool s) ! k)) \<Longrightarrow>
           caller_in_cs (pc (callers s ! c)) \<noteq> Some k"
  using assms by (auto simp: lock_inv_def)

lemma single_inv_worker_step:
  assumes "lock_inv s" and "single_inv s" and "worker_step j s = Some s'"
  shows "single_inv s'"
  unfolding single_inv_def
proof (intro conjI allI impI)
  from assms(2) worker_step_length [OF assms(3)] show "length (callers s') = 1"
    by (simp add: single_inv_def)
next
  fix k
  assume "k < length (m_vpThreads (pool s'))"
  with worker_step_length [OF assms(3)]
  have k: "k < length (m_vpThreads (pool s))" and cs: "callers s' = callers s"
    by simp_all
  from assms(2) have c: "0 < length (callers s)" by (simp add: single_inv_def)
  note ex = lock_inv_excl [OF assms(1) k c]
  from assms(2) k
  have Ik: "fq_ok (pc (callers s ! 0)) k (free (m_vpThreads (pool s) ! k))
          (functionsQueue (m_vpThreads (pool s) ! k)) (thr (m_vpThreads (pool s) ! k))"
    by (simp add: single_inv_def)
  show "fq_ok (pc (callers s' ! 0)) k (free (m_vpThreads (pool s') ! k))
          (functionsQueue (m_vpThreads (pool s') ! k)) (thr (m_vpThreads (pool s') ! k))"
  proof (cases "k = j")
    case False
    with assms(3) k have "m_vpThreads (pool s') ! k = m_vpThreads (pool s) ! k"
      unfolding worker_step_def
      by (auto split: sum.splits wpc.splits option.splits list.splits)
    with Ik cs show ?thesis by simp
  next
    case True
    with Ik ex assms(3) k cs show ?thesis
      unfolding worker_step_def
      by (auto split: sum.splits wpc.splits option.splits list.splits if_splits)
  qed
qed

lemma single_inv_caller_step:
  assumes "lock_inv s" and "single_inv s" and "caller_step c s = Some s'"
  shows "single_inv s'"
  unfolding single_inv_def
proof (intro conjI allI impI)
  from assms(2) caller_step_length [OF assms(3)] show "length (callers s') = 1"
    by (simp add: single_inv_def)
next
  fix k
  assume "k < length (m_vpThreads (pool s'))"
  with caller_step_length [OF assms(3)]
  have k: "k < length (m_vpThreads (pool s))" and c: "c < length (callers s)"
    by simp_all
  from assms(2) c have c0: "c = 0" and l1: "length (callers s) = 1" by (simp_all add: single_inv_def)
  from assms(1) k c
  have lk: "worker_in_cs (thr (m_vpThreads (pool s) ! k)) \<longleftrightarrow>
           m_mxQueue (m_vpThreads (pool s) ! k) = Some (Worker k)"
       "caller_in_cs (pc (callers s ! c)) = Some k \<longleftrightarrow>
             m_mxQueue (m_vpThreads (pool s) ! k) = Some (Caller c)"
    by (simp_all add: lock_inv_def)
  from assms(2) k
  have Ik: "fq_ok (pc (callers s ! 0)) k (free (m_vpThreads (pool s) ! k))
          (functionsQueue (m_vpThreads (pool s) ! k)) (thr (m_vpThreads (pool s) ! k))"
    by (simp add: single_inv_def)
  show "fq_ok (pc (callers s' ! 0)) k (free (m_vpThreads (pool s') ! k))
          (functionsQueue (m_vpThreads (pool s') ! k)) (thr (m_vpThreads (pool s') ! k))"
    using Ik lk assms(3) k c0 l1 unfolding caller_step_def
    by (cases "thr (m_vpThreads (pool s) ! k)")
      (auto simp: nth_list_update
        split: sum.splits cpc.splits option.splits list.splits if_splits)
qed

lemma good_task_facts:
  assumes "good_task m0 t"
  shows "cap_ready t = cap_result t" and "cap_result t < length m0"
    and "cap_f t (cap_param1 t) (cap_param2 t) = expected (m0 ! cap_result t)"
proof -
  from assms have lt: "cap_result t < length m0" and eq: "t = task_of m0 (cap_result t)"
    by (simp_all add: good_task_def)
  show "cap_result t < length m0" by (fact lt)
  have "cap_ready (task_of m0 (cap_result t)) = cap_result t"
    by (simp add: task_of_def mk_task_def)
  with eq show "cap_ready t = cap_result t" by simp
  have "cap_f (task_of m0 (cap_result t)) (cap_param1 (task_of m0 (cap_result t)))
      (cap_param2 (task_of m0 (cap_result t))) = expected (m0 ! cap_result t)"
    by (simp add: task_of_def mk_task_def expected_def)
  with eq show "cap_f t (cap_param1 t) (cap_param2 t) = expected (m0 ! cap_result t)" by simp
qed

lemma good_task_of: "i < length m0 \<Longrightarrow> good_task m0 (task_of m0 i)"
  by (simp add: good_task_def task_of_def mk_task_def)

lemma write_result_fields [simp]:
  "length (write_result t v m) = length m"
  "readyFlag (write_result t v m ! i) = readyFlag (m ! i)"
  "param1 (write_result t v m ! i) = param1 (m ! i)"
  "param2 (write_result t v m ! i) = param2 (m ! i)"
  "func (write_result t v m ! i) = func (m ! i)"
  by (cases "cap_result t < length m"; simp add: write_result_def nth_list_update list_update_beyond)+

lemma write_ready_fields [simp]:
  "length (write_ready t m) = length m"
  "result (write_ready t m ! i) = result (m ! i)"
  "param1 (write_ready t m ! i) = param1 (m ! i)"
  "param2 (write_ready t m ! i) = param2 (m ! i)"
  "func (write_ready t m ! i) = func (m ! i)"
  by (cases "cap_ready t < length m"; simp add: write_ready_def nth_list_update list_update_beyond)+

lemma result_write_result:
  "cap_result t < length m \<Longrightarrow>
     result (write_result t v m ! i) = (if i = cap_result t then v else result (m ! i))"
  by (simp add: write_result_def nth_list_update)

lemma readyFlag_write_ready:
  "cap_ready t < length m \<Longrightarrow>
     readyFlag (write_ready t m ! i) = (if i = cap_ready t then True else readyFlag (m ! i))"
  by (simp add: write_ready_def nth_list_update)

lemma readyFlag_write_ready_mono:
  "readyFlag (m ! i) \<Longrightarrow> readyFlag (write_ready t m ! i)"
  by (cases "cap_ready t < length m"; simp add: write_ready_def nth_list_update list_update_beyond)

lemma mem_inv_write_result:
  assumes "mem_inv m0 m" and "good_task m0 t"
    and "cap_f t (cap_param1 t) (cap_param2 t) = Inr v"
  shows "mem_inv m0 (write_result t v m)"
proof -
  note g = good_task_facts [OF assms(2)]
  from assms(1) have len: "length m = length m0" by (simp add: mem_inv_def)
  from g assms(3) have e: "expected (m0 ! cap_result t) = Inr v" by simp
  show ?thesis
    using assms(1) e g(2) len
    by (auto simp: mem_inv_def result_write_result)
qed

lemma mem_inv_write_ready:
  assumes "mem_inv m0 m" and "good_task m0 t"
    and "expected (m0 ! cap_result t) = Inr (result (m ! cap_result t))"
  shows "mem_inv m0 (write_ready t m)"
proof -
  note g = good_task_facts [OF assms(2)]
  from assms(1) have len: "length m = length m0" by (simp add: mem_inv_def)
  show ?thesis
    using assms(1,3) g(1,2) len
    by (auto simp: mem_inv_def readyFlag_write_ready)
qed

lemma body_ok_write_result:
  assumes "body_ok m0 m q l" and "mem_inv m0 m" and "good_task m0 t"
    and "cap_f t (cap_param1 t) (cap_param2 t) = Inr v"
  shows "body_ok m0 (write_result t v m) q l"
proof -
  note g = good_task_facts [OF assms(3)]
  from assms(2) have len: "length m = length m0" by (simp add: mem_inv_def)
  from g assms(4) have e: "expected (m0 ! cap_result t) = Inr v" by simp
  show ?thesis
    using assms(1) e g(2) len
    by (cases l) (auto simp: result_write_result)
qed

lemma body_ok_write_ready:
  "body_ok m0 m q l \<Longrightarrow> body_ok m0 (write_ready t m) q l"
  by (cases l) (auto simp: readyFlag_write_ready_mono)

lemma body_ok_append:
  "body_ok m0 m q l \<Longrightarrow> body_ok m0 m (q @ [t]) l"
  by (cases l) auto

lemma placed_worker_step:
  assumes "worker_step j s = Some s'" and "placed s t"
    and "body_ok m0 (vEvals s) (functionsQueue (m_vpThreads (pool s) ! j))
          (thr (m_vpThreads (pool s) ! j))"
  shows "placed s' t"
proof -
  note len = worker_step_length [OF assms(1)]
  have rdy: "readyFlag (vEvals s ! cap_ready t) \<Longrightarrow> readyFlag (vEvals s' ! cap_ready t)"
    using assms(1) unfolding worker_step_def
    by (auto simp: readyFlag_write_ready_mono split: sum.splits wpc.splits option.splits list.splits)
  from assms(2) consider (r) "readyFlag (vEvals s ! cap_ready t)"
    | (q) k where "k < length (m_vpThreads (pool s))"
        "t \<in> set (functionsQueue (m_vpThreads (pool s) ! k))"
    by (auto simp: placed_def)
  then show ?thesis
  proof cases
    case r
    with rdy show ?thesis by (simp add: placed_def)
  next
    case q
    show ?thesis
    proof (cases "k = j")
      case False
      with assms(1) q(1) have "m_vpThreads (pool s') ! k = m_vpThreads (pool s) ! k"
        unfolding worker_step_def
        by (auto split: sum.splits wpc.splits option.splits list.splits)
      with q len show ?thesis by (auto simp: placed_def)
    next
      case True
      have "readyFlag (vEvals s' ! cap_ready t) \<or>
          t \<in> set (functionsQueue (m_vpThreads (pool s') ! j))"
        using assms(1,3) q True unfolding worker_step_def
        by (auto split: sum.splits wpc.splits option.splits list.splits)
      with len show ?thesis by (auto simp: placed_def)
    qed
  qed
qed

lemma placed_caller_step:
  assumes "caller_step c s = Some s'" and "placed s t"
  shows "placed s' t"
proof -
  note len = caller_step_length [OF assms(1)]
  from assms(2) consider (r) "readyFlag (vEvals s ! cap_ready t)"
    | (q) k where "k < length (m_vpThreads (pool s))"
        "t \<in> set (functionsQueue (m_vpThreads (pool s) ! k))"
    by (auto simp: placed_def)
  then show ?thesis
  proof cases
    case r
    with len show ?thesis by (simp add: placed_def)
  next
    case q
    have "t \<in> set (functionsQueue (m_vpThreads (pool s') ! k))"
      using assms(1) q unfolding caller_step_def
      by (auto simp: nth_list_update split: sum.splits cpc.splits option.splits list.splits if_splits)
    with q(1) len show ?thesis by (auto simp: placed_def)
  qed
qed

lemma work_inv_worker_step:
  assumes "work_inv m0 s" and "worker_step j s = Some s'"
  shows "work_inv m0 s'"
proof -
  note len = worker_step_length [OF assms(2)]
  from len have j: "j < length (m_vpThreads (pool s))" by simp
  let ?w = "m_vpThreads (pool s) ! j"
  from assms(1) have M: "mem_inv m0 (vEvals s)" by (simp add: work_inv_def)
  from assms(1) have W: "\<And>k. k < length (m_vpThreads (pool s)) \<Longrightarrow>
        (\<forall>t \<in> set (functionsQueue (m_vpThreads (pool s) ! k)). good_task m0 t) \<and>
        body_ok m0 (vEvals s) (functionsQueue (m_vpThreads (pool s) ! k))
          (thr (m_vpThreads (pool s) ! k))"
    by (simp add: work_inv_def)
  from assms(1) have C: "\<And>c. c < length (callers s) \<Longrightarrow>
        (\<forall>t \<in> set (todo (callers s ! c)). good_task m0 t) \<and> call_ok s (callers s ! c)"
    by (simp add: work_inv_def)
  from assms(1) have V: "\<And>i. i < length m0 \<Longrightarrow>
        placed s (task_of m0 i) \<or>
        (\<exists>c < length (callers s). task_of m0 i \<in> set (todo (callers s ! c)))"
    by (simp add: work_inv_def)
  note Wj = W [OF j]
  from Wj have Bj: "body_ok m0 (vEvals s) (functionsQueue ?w) (thr ?w)" by simp
  note pl = placed_worker_step [OF assms(2) _ Bj]
  have mem: "vEvals s' = vEvals s
      \<or> (\<exists>t v. thr ?w = W_Call t \<and> cap_f t (cap_param1 t) (cap_param2 t) = Inr v
            \<and> vEvals s' = write_result t v (vEvals s))
      \<or> (\<exists>t. thr ?w = W_Ready t \<and> vEvals s' = write_ready t (vEvals s))"
    using assms(2) unfolding worker_step_def
    by (auto split: sum.splits wpc.splits option.splits list.splits)
  have M': "mem_inv m0 (vEvals s')"
    using mem
  proof (elim disjE exE conjE)
    assume "vEvals s' = vEvals s"
    with M show ?thesis by simp
  next
    fix t v
    assume a: "thr ?w = W_Call t" "cap_f t (cap_param1 t) (cap_param2 t) = Inr v"
      "vEvals s' = write_result t v (vEvals s)"
    from Bj a(1) have "good_task m0 t" by simp
    from mem_inv_write_result [OF M this a(2)] a(3) show ?thesis by simp
  next
    fix t
    assume a: "thr ?w = W_Ready t" "vEvals s' = write_ready t (vEvals s)"
    from Bj a(1) have "good_task m0 t"
      "expected (m0 ! cap_result t) = Inr (result (vEvals s ! cap_result t))" by simp_all
    from mem_inv_write_ready [OF M this] a(2) show ?thesis by simp
  qed
  have B_mem: "\<And>q l. body_ok m0 (vEvals s) q l \<Longrightarrow> body_ok m0 (vEvals s') q l"
    using mem
  proof (elim disjE exE conjE)
    fix q l
    assume "body_ok m0 (vEvals s) q l" "vEvals s' = vEvals s"
    then show "body_ok m0 (vEvals s') q l" by simp
  next
    fix q l t v
    assume b: "body_ok m0 (vEvals s) q l"
      and a: "thr ?w = W_Call t" "cap_f t (cap_param1 t) (cap_param2 t) = Inr v"
      "vEvals s' = write_result t v (vEvals s)"
    from Bj a(1) have "good_task m0 t" by simp
    from body_ok_write_result [OF b M this a(2)] a(3)
    show "body_ok m0 (vEvals s') q l" by simp
  next
    fix q l t
    assume b: "body_ok m0 (vEvals s) q l"
      and a: "thr ?w = W_Ready t" "vEvals s' = write_ready t (vEvals s)"
    from body_ok_write_ready [OF b] a(2) show "body_ok m0 (vEvals s') q l" by simp
  qed
  have W': "\<And>k. k < length (m_vpThreads (pool s')) \<Longrightarrow>
        (\<forall>t \<in> set (functionsQueue (m_vpThreads (pool s') ! k)). good_task m0 t) \<and>
        body_ok m0 (vEvals s') (functionsQueue (m_vpThreads (pool s') ! k))
          (thr (m_vpThreads (pool s') ! k))"
  proof -
    fix k
    assume "k < length (m_vpThreads (pool s'))"
    with len have k: "k < length (m_vpThreads (pool s))" by simp
    show "(\<forall>t \<in> set (functionsQueue (m_vpThreads (pool s') ! k)). good_task m0 t) \<and>
        body_ok m0 (vEvals s') (functionsQueue (m_vpThreads (pool s') ! k))
          (thr (m_vpThreads (pool s') ! k))"
    proof (cases "k = j")
      case False
      with assms(2) k have "m_vpThreads (pool s') ! k = m_vpThreads (pool s) ! k"
        unfolding worker_step_def
        by (auto split: sum.splits wpc.splits option.splits list.splits)
      with W [OF k] B_mem show ?thesis by simp
    next
      case True
      from M have lm: "length (vEvals s) = length m0" by (simp add: mem_inv_def)
      have "(\<forall>t \<in> set (functionsQueue (m_vpThreads (pool s') ! j)). good_task m0 t)"
        using Wj assms(2) j unfolding worker_step_def
        by (auto split: sum.splits wpc.splits option.splits list.splits)
      moreover have "body_ok m0 (vEvals s') (functionsQueue (m_vpThreads (pool s') ! j))
          (thr (m_vpThreads (pool s') ! j))"
      proof (cases "thr ?w")
        case (W_Call t)
        with Bj have g: "good_task m0 t" by simp
        note gf = good_task_facts [OF g]
        from W_Call Bj assms(2) j lm gf show ?thesis
          unfolding worker_step_def
          by (auto simp: result_write_result split: sum.splits)
      next
        case (W_Ready t)
        with Bj have g: "good_task m0 t" by simp
        note gf = good_task_facts [OF g]
        from W_Ready Bj assms(2) j lm gf show ?thesis
          unfolding worker_step_def
          by (auto simp: readyFlag_write_ready split: sum.splits)
      next
        case W_Front
        with Wj assms(2) j show ?thesis
          unfolding worker_step_def by (auto split: sum.splits list.splits)
      next
        case W_Pop
        with Wj assms(2) j show ?thesis
          unfolding worker_step_def by (auto split: sum.splits list.splits)
      next
        case W_Lock
        with Wj assms(2) j show ?thesis
          unfolding worker_step_def by (auto split: sum.splits option.splits)
      next
        case W_Wait
        with Wj assms(2) j show ?thesis
          unfolding worker_step_def by (auto split: sum.splits option.splits)
      next
        case W_Check
        with Wj assms(2) j show ?thesis
          unfolding worker_step_def by (auto split: sum.splits list.splits)
      next
        case W_Free
        with Wj assms(2) j show ?thesis
          unfolding worker_step_def by (auto split: sum.splits)
      next
        case W_Unlock
        with Wj assms(2) j show ?thesis
          unfolding worker_step_def by (auto split: sum.splits)
      next
        case (W_Crashed e)
        with Wj assms(2) j show ?thesis
          unfolding worker_step_def by (auto split: sum.splits)
      qed
      ultimately show ?thesis using True by simp
    qed
  qed
  have C': "\<And>c. c < length (callers s') \<Longrightarrow>
        (\<forall>t \<in> set (todo (callers s' ! c)). good_task m0 t) \<and> call_ok s' (callers s' ! c)"
    using C len pl by (auto simp: call_ok_def)
  have V': "\<And>i. i < length m0 \<Longrightarrow>
        placed s' (task_of m0 i) \<or>
        (\<exists>c < length (callers s'). task_of m0 i \<in> set (todo (callers s' ! c)))"
    using V len pl by auto
  from M' W' C' V' show ?thesis unfolding work_inv_def by blast
qed

lemma at_worker_lt:
  "i < length (m_vpThreads p) \<Longrightarrow> at_worker p i = Inr (m_vpThreads p ! i)"
  by (simp add: at_worker_def)

lemma mem_tl: "t \<in> set (tl xs) \<Longrightarrow> t \<in> set xs"
  by (cases xs) auto

lemma caller_step_others:
  "caller_step c s = Some s' \<Longrightarrow> d \<noteq> c \<Longrightarrow> callers s' ! d = callers s ! d"
  unfolding caller_step_def
  by (auto split: sum.splits cpc.splits option.splits list.splits if_splits)

lemma caller_step_todo:
  "caller_step c s = Some s' \<Longrightarrow>
     todo (callers s' ! c) = todo (callers s ! c) \<or>
     (pc (callers s ! c) = C_Ret True \<and> todo (callers s' ! c) = tl (todo (callers s ! c)))"
  unfolding caller_step_def
  by (auto split: sum.splits cpc.splits option.splits list.splits if_splits)

lemma caller_step_queue:
  assumes "caller_step c s = Some s'" and "k < length (m_vpThreads (pool s))"
  shows "thr (m_vpThreads (pool s') ! k) = thr (m_vpThreads (pool s) ! k) \<and>
     (functionsQueue (m_vpThreads (pool s') ! k) = functionsQueue (m_vpThreads (pool s) ! k) \<or>
      (pc (callers s ! c) = C_Push k \<and> pc (callers s' ! c) = C_Unlock k \<and>
       todo (callers s ! c) \<noteq> [] \<and>
       functionsQueue (m_vpThreads (pool s') ! k) =
         functionsQueue (m_vpThreads (pool s) ! k) @ [hd (todo (callers s ! c))]))"
  using assms unfolding caller_step_def
  by (auto simp: nth_list_update split: sum.splits cpc.splits option.splits list.splits if_splits)

lemma caller_step_scheduled:
  assumes "caller_step c s = Some s'" and "scheduled_pc (pc (callers s' ! c))"
  shows "(scheduled_pc (pc (callers s ! c)) \<and> todo (callers s' ! c) = todo (callers s ! c)) \<or>
      (\<exists>k < length (m_vpThreads (pool s)). pc (callers s ! c) = C_Push k \<and>
          todo (callers s' ! c) = todo (callers s ! c) \<and> todo (callers s ! c) \<noteq> [] \<and>
          functionsQueue (m_vpThreads (pool s') ! k) =
            functionsQueue (m_vpThreads (pool s) ! k) @ [hd (todo (callers s ! c))])"
  using assms unfolding caller_step_def
  by (auto simp: nth_list_update split: sum.splits cpc.splits option.splits list.splits if_splits)

lemma work_inv_caller_step:
  assumes "work_inv m0 s" and "caller_step c s = Some s'"
  shows "work_inv m0 s'"
proof -
  note len = caller_step_length [OF assms(2)]
  from len have c: "c < length (callers s)" by simp
  from assms(1) have M: "mem_inv m0 (vEvals s)" by (simp add: work_inv_def)
  from assms(1) have W: "\<And>k. k < length (m_vpThreads (pool s)) \<Longrightarrow>
        (\<forall>t \<in> set (functionsQueue (m_vpThreads (pool s) ! k)). good_task m0 t) \<and>
        body_ok m0 (vEvals s) (functionsQueue (m_vpThreads (pool s) ! k))
          (thr (m_vpThreads (pool s) ! k))"
    by (simp add: work_inv_def)
  from assms(1) have C: "\<And>c. c < length (callers s) \<Longrightarrow>
        (\<forall>t \<in> set (todo (callers s ! c)). good_task m0 t) \<and> call_ok s (callers s ! c)"
    by (simp add: work_inv_def)
  from assms(1) have V: "\<And>i. i < length m0 \<Longrightarrow>
        placed s (task_of m0 i) \<or>
        (\<exists>c < length (callers s). task_of m0 i \<in> set (todo (callers s ! c)))"
    by (simp add: work_inv_def)
  note Cc = C [OF c]
  note pl = placed_caller_step [OF assms(2)]
  note td = caller_step_todo [OF assms(2)]
  from M len have M': "mem_inv m0 (vEvals s')" by simp
  have W': "\<And>k. k < length (m_vpThreads (pool s')) \<Longrightarrow>
        (\<forall>t \<in> set (functionsQueue (m_vpThreads (pool s') ! k)). good_task m0 t) \<and>
        body_ok m0 (vEvals s') (functionsQueue (m_vpThreads (pool s') ! k))
          (thr (m_vpThreads (pool s') ! k))"
  proof -
    fix k
    assume "k < length (m_vpThreads (pool s'))"
    with len have k: "k < length (m_vpThreads (pool s))" by simp
    from caller_step_queue [OF assms(2) k] W [OF k] Cc len
    show "(\<forall>t \<in> set (functionsQueue (m_vpThreads (pool s') ! k)). good_task m0 t) \<and>
        body_ok m0 (vEvals s') (functionsQueue (m_vpThreads (pool s') ! k))
          (thr (m_vpThreads (pool s') ! k))"
      by (auto simp: body_ok_append)
  qed
  have C': "\<And>d. d < length (callers s') \<Longrightarrow>
        (\<forall>t \<in> set (todo (callers s' ! d)). good_task m0 t) \<and> call_ok s' (callers s' ! d)"
  proof -
    fix d
    assume "d < length (callers s')"
    with len have d: "d < length (callers s)" by simp
    show "(\<forall>t \<in> set (todo (callers s' ! d)). good_task m0 t) \<and> call_ok s' (callers s' ! d)"
    proof (cases "d = c")
      case False
      from caller_step_others [OF assms(2) False] C [OF d] pl show ?thesis
        by (auto simp: call_ok_def)
    next
      case True
      have good: "\<forall>t \<in> set (todo (callers s' ! c)). good_task m0 t"
        using td Cc mem_tl [of _ "todo (callers s ! c)"] by auto
      have "call_ok s' (callers s' ! c)"
        unfolding call_ok_def
      proof
        assume sp: "scheduled_pc (pc (callers s' ! c))"
        from caller_step_scheduled [OF assms(2) sp]
        show "todo (callers s' ! c) \<noteq> [] \<and> placed s' (hd (todo (callers s' ! c)))"
        proof (elim disjE exE conjE)
          assume "scheduled_pc (pc (callers s ! c))"
            and eq: "todo (callers s' ! c) = todo (callers s ! c)"
          with Cc have "todo (callers s ! c) \<noteq> []" "placed s (hd (todo (callers s ! c)))"
            by (simp_all add: call_ok_def)
          with eq pl show ?thesis by simp
        next
          fix k
          assume k: "k < length (m_vpThreads (pool s))"
            and eq: "todo (callers s' ! c) = todo (callers s ! c)"
            and ne: "todo (callers s ! c) \<noteq> []"
            and q: "functionsQueue (m_vpThreads (pool s') ! k) =
              functionsQueue (m_vpThreads (pool s) ! k) @ [hd (todo (callers s ! c))]"
          from k len q have "placed s' (hd (todo (callers s ! c)))"
            unfolding placed_def by (intro disjI2 exI [of _ k]) simp
          with eq ne show ?thesis by simp
        qed
      qed
      with good True show ?thesis by simp
    qed
  qed
  have V': "\<And>i. i < length m0 \<Longrightarrow>
        placed s' (task_of m0 i) \<or>
        (\<exists>d < length (callers s'). task_of m0 i \<in> set (todo (callers s' ! d)))"
  proof -
    fix i
    assume "i < length m0"
    from V [OF this] show "placed s' (task_of m0 i) \<or>
        (\<exists>d < length (callers s'). task_of m0 i \<in> set (todo (callers s' ! d)))"
    proof (elim disjE exE conjE)
      assume "placed s (task_of m0 i)"
      with pl show ?thesis by simp
    next
      fix d
      assume d: "d < length (callers s)"
        and t: "task_of m0 i \<in> set (todo (callers s ! d))"
      show ?thesis
      proof (cases "d = c")
        case False
        from caller_step_others [OF assms(2) False] d t len show ?thesis by auto
      next
        case True
        from td show ?thesis
        proof (elim disjE conjE)
          assume "todo (callers s' ! c) = todo (callers s ! c)"
          with t True c len show ?thesis by auto
        next
          assume r: "pc (callers s ! c) = C_Ret True"
            and tl: "todo (callers s' ! c) = tl (todo (callers s ! c))"
          from r Cc have ne: "todo (callers s ! c) \<noteq> []"
            and p: "placed s (hd (todo (callers s ! c)))"
            by (simp_all add: call_ok_def)
          show ?thesis
          proof (cases "task_of m0 i = hd (todo (callers s ! c))")
            case True
            with p pl show ?thesis by simp
          next
            case False
            with t \<open>d = c\<close> ne have "task_of m0 i \<in> set (tl (todo (callers s ! c)))"
              by (cases "todo (callers s ! c)") auto
            with tl c len show ?thesis by auto
          qed
        qed
      qed
    qed
  qed
  from M' W' C' V' show ?thesis unfolding work_inv_def by blast
qed

subsection \<open>Reachable states\<close>

lemma step_length:
  "step t s = Some s' \<Longrightarrow>
     length (m_vpThreads (pool s')) = length (m_vpThreads (pool s)) \<and>
     length (callers s') = length (callers s)"
  by (cases t) (auto dest: worker_step_length caller_step_length)

lemma lock_inv_step: "lock_inv s \<Longrightarrow> step t s = Some s' \<Longrightarrow> lock_inv s'"
  by (cases t) (auto intro: lock_inv_worker_step lock_inv_caller_step)

lemma single_inv_step:
  "lock_inv s \<Longrightarrow> single_inv s \<Longrightarrow> step t s = Some s' \<Longrightarrow> single_inv s'"
  by (cases t) (auto intro: single_inv_worker_step single_inv_caller_step)

lemma work_inv_step: "work_inv m0 s \<Longrightarrow> step t s = Some s' \<Longrightarrow> work_inv m0 s'"
  by (cases t) (auto intro: work_inv_worker_step work_inv_caller_step)

lemma reachable_lock_inv: "reachable s0 s \<Longrightarrow> lock_inv s0 \<Longrightarrow> lock_inv s"
  by (induction rule: reachable.induct) (auto intro: lock_inv_step)

lemma reachable_single_inv:
  "reachable s0 s \<Longrightarrow> lock_inv s0 \<Longrightarrow> single_inv s0 \<Longrightarrow> lock_inv s \<and> single_inv s"
  by (induction rule: reachable.induct) (auto intro: lock_inv_step single_inv_step)

lemma reachable_work_inv: "reachable s0 s \<Longrightarrow> work_inv m0 s0 \<Longrightarrow> work_inv m0 s"
  by (induction rule: reachable.induct) (auto intro: work_inv_step)

lemma run_reachable: "run ts s = Some s' \<Longrightarrow> reachable s0 s \<Longrightarrow> reachable s0 s'"
proof (induction ts arbitrary: s)
  case Nil
  then show ?case by simp
next
  case (Cons t ts)
  then show ?case by (auto split: option.splits intro: reach_step)
qed

lemma runs_reachable: "runs ts s \<Longrightarrow> reachable s (after ts s)"
  unfolding runs_def after_def
  by (auto split: option.splits intro: run_reachable reach_init)

lemma start_simps [simp]:
  "pool (start p tss m) = p"
  "vEvals (start p tss m) = m"
  "length (callers (start p tss m)) = length tss"
  "c < length tss \<Longrightarrow> callers (start p tss m) ! c = \<lparr>todo = tss ! c, pc = C_Call\<rparr>"
  by (simp_all add: start_def)

lemma lock_inv_start:
  assumes "ThreadPool_new n = Inr p"
  shows "lock_inv (start p tss m)"
  using ThreadPool_new_workers [OF assms]
  by (auto simp: lock_inv_def ThreadManager_new_def)

lemma single_inv_start:
  assumes "ThreadPool_new n = Inr p"
  shows "single_inv (start p [ts] m)"
  using ThreadPool_new_workers [OF assms]
  by (auto simp: single_inv_def ThreadManager_new_def)

lemma work_inv_start:
  assumes "ThreadPool_new n = Inr p" and "\<forall>e \<in> set m0. \<not> readyFlag e"
  shows "work_inv m0 (start p [map (task_of m0) [0..<length m0]] m0)"
proof -
  note w = ThreadPool_new_workers [OF assms(1)]
  have "mem_inv m0 m0" using assms(2) by (simp add: mem_inv_def)
  moreover have "\<forall>k < length (m_vpThreads p).
      functionsQueue (m_vpThreads p ! k) = [] \<and> thr (m_vpThreads p ! k) = W_Lock"
    using w by (simp add: ThreadManager_new_def)
  ultimately show ?thesis
    by (auto simp: work_inv_def call_ok_def good_task_of)
qed

lemma pools_constructed:
  "ThreadPool_new 1 = Inr one_worker_pool" "ThreadPool_new nThreads = Inr main_pool"
  by (simp_all add: ThreadPool_new_def one_worker_pool_def ctor_loop.simps main_pool_def nThreads_def)

lemma length_main_vEvals: "length main_vEvals = 11"
  by (simp add: main_vEvals_eq)

lemma main_tasks_eq: "main_tasks = map (task_of main_vEvals) [0..<length main_vEvals]"
  by (simp add: main_tasks_def length_main_vEvals nEvaluations_def)

lemma main_expected:
  "map expected main_vEvals =
     [Inr 0, Inr 1, Inr 8, Inr 2, Inr 12, Inr 5, Inr 72, Inr 2, Inr 24, Inr 9, Inr 200]"
  unfolding main_vEvals_eq
  by (simp add: expected_def arith_defs signed_divide_int_def)

lemma drained_ready:
  assumes "work_inv m0 s" and "drained s" and "i < length m0"
  shows "readyFlag (vEvals s ! i) \<and> expected (m0 ! i) = Inr (result (vEvals s ! i))"
proof -
  from assms(2) have q: "\<And>k. k < length (m_vpThreads (pool s)) \<Longrightarrow>
      functionsQueue (m_vpThreads (pool s) ! k) = []"
    and t: "\<And>c. c < length (callers s) \<Longrightarrow> todo (callers s ! c) = []"
    by (simp_all add: drained_def list_all_length)
  from assms(1,3) have "placed s (task_of m0 i) \<or>
        (\<exists>c < length (callers s). task_of m0 i \<in> set (todo (callers s ! c)))"
    by (simp add: work_inv_def)
  with q t have "readyFlag (vEvals s ! cap_ready (task_of m0 i))"
    by (auto simp: placed_def)
  then have r: "readyFlag (vEvals s ! i)" by (simp add: task_of_def mk_task_def)
  from assms(1) have "mem_inv m0 (vEvals s)" by (simp add: work_inv_def)
  with r assms(3) show ?thesis by (simp add: mem_inv_def)
qed

subsection \<open>Two calling threads\<close>

text \<open>
  C1. The flag of a worker is read at line 55, before the mutex of that worker is taken at
  line 56; only the write of the flag and the push are under the mutex. With one worker
  and two calling threads, both threads read the flag as true while nobody holds the
  mutex; then each in turn takes the mutex, sets the flag false, pushes its task and
  returns true. Both calls have claimed worker 0, whose queue now holds both tasks.
\<close>

theorem two_callers_claim_one_worker:
  "runs race_schedule race_start
   \<and> flags race_start = [True] \<and> queued race_start = [[]]
   \<and> caller_pcs (after race_reads race_start) = [C_Lock 0, C_Lock 0]
   \<and> mutexes (after race_reads race_start) = [None]
   \<and> caller_pcs (after race_schedule race_start) = [C_Ret True, C_Ret True]
   \<and> queued (after race_schedule race_start) = [[0, 1]]
   \<and> flags (after race_schedule race_start) = [False]"
  by code_simp

subsection \<open>Flag, queue and mutex with one calling thread\<close>

text \<open>
  C5, as the claim states it, fails between \<open>functionsQueue.pop()\<close> and \<open>free = true\<close>
  (lines 96 and 97): one evaluation is scheduled on a pool of one worker, the worker
  takes the mutex, runs the task and pops it. The queue is empty and no task is
  executing, and the flag is still false.
\<close>

theorem flag_false_between_pop_and_free:
  "runs (dispatch_to 0 @ serve 6 0) single_start
   \<and> queued (after (dispatch_to 0 @ serve 6 0) single_start) = [[]]
   \<and> in_body (after (dispatch_to 0 @ serve 6 0) single_start) = [False]
   \<and> flags (after (dispatch_to 0 @ serve 6 0) single_start) = [False]"
  by code_simp

text \<open>
  C5, amended. With one calling thread, in every reachable state and for every worker:
  if the flag is true, the queue is empty and no task is executing on the worker; and
  whenever the worker's mutex is not held, the flag is true if and only if the queue is
  empty and no task is executing.
\<close>

theorem free_flag_when_unlocked:
  assumes "ThreadPool_new n = Inr p" and "reachable (start p [ts] m) s"
    and "k < length (m_vpThreads (pool s))"
  shows "(free (m_vpThreads (pool s) ! k) \<longrightarrow>
            functionsQueue (m_vpThreads (pool s) ! k) = [] \<and>
            \<not> executing (thr (m_vpThreads (pool s) ! k)))
      \<and> (m_mxQueue (m_vpThreads (pool s) ! k) = None \<longrightarrow>
            (free (m_vpThreads (pool s) ! k) \<longleftrightarrow>
               functionsQueue (m_vpThreads (pool s) ! k) = [] \<and>
               \<not> executing (thr (m_vpThreads (pool s) ! k))))"
proof -
  from reachable_single_inv [OF assms(2) lock_inv_start [OF assms(1)] single_inv_start [OF assms(1)]]
  have L: "lock_inv s" and S: "single_inv s" by simp_all
  from S have c: "0 < length (callers s)" by (simp add: single_inv_def)
  from L assms(3) c
  have lk: "worker_in_cs (thr (m_vpThreads (pool s) ! k)) \<longleftrightarrow>
           m_mxQueue (m_vpThreads (pool s) ! k) = Some (Worker k)"
       "caller_in_cs (pc (callers s ! 0)) = Some k \<longleftrightarrow>
             m_mxQueue (m_vpThreads (pool s) ! k) = Some (Caller 0)"
    by (simp_all add: lock_inv_def)
  from S assms(3)
  have Ik: "fq_ok (pc (callers s ! 0)) k (free (m_vpThreads (pool s) ! k))
          (functionsQueue (m_vpThreads (pool s) ! k)) (thr (m_vpThreads (pool s) ! k))"
    by (simp add: single_inv_def)
  from lk Ik show ?thesis
    by (cases "thr (m_vpThreads (pool s) ! k)") (auto split: if_splits)
qed

theorem free_flag_when_unlocked_witness:
  "ThreadPool_new 1 = Inr one_worker_pool
   \<and> reachable (start one_worker_pool [[task_of [slot_3_4] 0]] [slot_3_4])
        (after (dispatch_to 0 @ serve 8 0) single_start)
   \<and> mutexes (after (dispatch_to 0 @ serve 8 0) single_start) = [None]
   \<and> flags (after (dispatch_to 0 @ serve 8 0) single_start) = [True]
   \<and> queued (after (dispatch_to 0 @ serve 8 0) single_start) = [[]]
   \<and> in_body (after (dispatch_to 0 @ serve 8 0) single_start) = [False]
   \<and> functionsQueue (m_vpThreads (pool (after (dispatch_to 0 @ serve 8 0) single_start)) ! 0) = []"
proof -
  let ?s = "after (dispatch_to 0 @ serve 8 0) single_start"
  have r: "runs (dispatch_to 0 @ serve 8 0) single_start" by code_simp
  have h2: "reachable (start one_worker_pool [[task_of [slot_3_4] 0]] [slot_3_4]) ?s"
    using runs_reachable [OF r] by (simp add: single_start_def)
  have v: "mutexes ?s = [None]" "flags ?s = [True]" "queued ?s = [[]]" "in_body ?s = [False]"
    by code_simp+
  from v(1) have h3: "0 < length (m_vpThreads (pool ?s))"
    and un: "m_mxQueue (m_vpThreads (pool ?s) ! 0) = None"
    by (auto simp: mutexes_def map_eq_Cons_conv)
  from v(2) have fr: "free (m_vpThreads (pool ?s) ! 0)"
    by (auto simp: flags_def map_eq_Cons_conv)
  from free_flag_when_unlocked [OF pools_constructed(1) h2 h3] un fr
  have "functionsQueue (m_vpThreads (pool ?s) ! 0) = []" by simp
  with pools_constructed(1) h2 v show ?thesis by simp
qed

text \<open>
  C6, as the claim states it, fails: \<open>locker\<close> lives for the whole body of the loop
  (lines 88 to 98), so the worker is inside \<open>f()\<close> while it holds its own mutex.
\<close>

theorem body_entered_with_mutex_held:
  "runs (dispatch_to 0 @ serve 3 0) single_start
   \<and> in_body (after (dispatch_to 0 @ serve 3 0) single_start) = [True]
   \<and> mutexes (after (dispatch_to 0 @ serve 3 0) single_start) = [Some (Worker 0)]"
  by code_simp

text \<open>
  C6, amended. In every reachable state, a worker that is executing a task body holds
  its own mutex (it took it at the top of the iteration and releases it only at the end,
  after \<open>free = true\<close>); and with one calling thread the flag of that worker is false
  for as long as the body runs, so it is not set true before the body has completed.
\<close>

theorem body_runs_under_own_mutex:
  assumes "ThreadPool_new n = Inr p" and "reachable (start p tss m) s"
    and "k < length (m_vpThreads (pool s))"
    and "executing (thr (m_vpThreads (pool s) ! k))"
  shows "m_mxQueue (m_vpThreads (pool s) ! k) = Some (Worker k)
      \<and> (length tss = 1 \<longrightarrow> \<not> free (m_vpThreads (pool s) ! k))"
proof
  from reachable_lock_inv [OF assms(2) lock_inv_start [OF assms(1)]]
  have L: "lock_inv s" .
  with assms(3)
  have "worker_in_cs (thr (m_vpThreads (pool s) ! k)) \<longleftrightarrow>
           m_mxQueue (m_vpThreads (pool s) ! k) = Some (Worker k)"
    by (simp add: lock_inv_def)
  with assms(4) show "m_mxQueue (m_vpThreads (pool s) ! k) = Some (Worker k)"
    by (cases "thr (m_vpThreads (pool s) ! k)") auto
next
  show "length tss = 1 \<longrightarrow> \<not> free (m_vpThreads (pool s) ! k)"
  proof
    assume "length tss = 1"
    then obtain ts where tss: "tss = [ts]" by (cases tss) auto
    from reachable_single_inv [OF assms(2) [unfolded tss] lock_inv_start [OF assms(1)]
      single_inv_start [OF assms(1)]]
    have S: "single_inv s" by simp
    with assms(3)
    have "fq_ok (pc (callers s ! 0)) k (free (m_vpThreads (pool s) ! k))
          (functionsQueue (m_vpThreads (pool s) ! k)) (thr (m_vpThreads (pool s) ! k))"
      by (simp add: single_inv_def)
    with assms(4) show "\<not> free (m_vpThreads (pool s) ! k)"
      by (cases "thr (m_vpThreads (pool s) ! k)") auto
  qed
qed

theorem body_runs_under_own_mutex_witness:
  "ThreadPool_new 1 = Inr one_worker_pool
   \<and> reachable (start one_worker_pool [[task_of [slot_3_4] 0]] [slot_3_4])
        (after (dispatch_to 0 @ serve 3 0) single_start)
   \<and> in_body (after (dispatch_to 0 @ serve 3 0) single_start) = [True]
   \<and> m_mxQueue (m_vpThreads (pool (after (dispatch_to 0 @ serve 3 0) single_start)) ! 0)
        = Some (Worker 0)
   \<and> \<not> free (m_vpThreads (pool (after (dispatch_to 0 @ serve 3 0) single_start)) ! 0)"
proof -
  let ?s = "after (dispatch_to 0 @ serve 3 0) single_start"
  have r: "runs (dispatch_to 0 @ serve 3 0) single_start" by code_simp
  have h2: "reachable (start one_worker_pool [[task_of [slot_3_4] 0]] [slot_3_4]) ?s"
    using runs_reachable [OF r] by (simp add: single_start_def)
  have v: "in_body ?s = [True]" by code_simp
  then have h3: "0 < length (m_vpThreads (pool ?s))"
    and h4: "executing (thr (m_vpThreads (pool ?s) ! 0))"
    by (auto simp: in_body_def map_eq_Cons_conv)
  from body_runs_under_own_mutex [OF pools_constructed(1) h2 h3 h4] pools_constructed(1) h2 v
  show ?thesis by simp
qed

subsection \<open>One iteration of the service loop\<close>

text \<open>
  C7, as the claim states it, fails in its last part: the task is copied with
  \<open>front()\<close> and removed with \<open>pop()\<close> only after \<open>f()\<close> has returned. Here the worker is
  inside the body, the result is already written, and the task is still in the queue.
\<close>

theorem task_still_queued_in_body:
  "runs (dispatch_to 0 @ serve 4 0) single_start
   \<and> in_body (after (dispatch_to 0 @ serve 4 0) single_start) = [True]
   \<and> results (after (dispatch_to 0 @ serve 4 0) single_start) = [7]
   \<and> queued (after (dispatch_to 0 @ serve 4 0) single_start) = [[0]]"
  by code_simp

text \<open>
  C7, amended. An iteration of the service loop that finds the queue non-empty, with
  \<open>t\<close> the oldest task and \<open>q\<close> the rest, whose call of the function returns: the worker
  copies \<open>t\<close> from the front of the queue, executes it to completion (result, then
  ready) while the queue is still \<open>t # q\<close>, then removes exactly \<open>t\<close>, leaving \<open>q\<close>, and
  only then sets its flag true. The removal comes after the execution; the flag is not
  written before.
\<close>

theorem worker_iteration_order:
  assumes "k < length (m_vpThreads (pool s))"
    and "thr (m_vpThreads (pool s) ! k) = W_Check"
    and "functionsQueue (m_vpThreads (pool s) ! k) = t # q"
    and "cap_f t (cap_param1 t) (cap_param2 t) = Inr v"
  shows "runs (serve 6 k) s
    \<and> thr (m_vpThreads (pool (after (serve 1 k) s)) ! k) = W_Front
    \<and> thr (m_vpThreads (pool (after (serve 2 k) s)) ! k) = W_Call t
    \<and> functionsQueue (m_vpThreads (pool (after (serve 2 k) s)) ! k) = t # q
    \<and> vEvals (after (serve 2 k) s) = vEvals s
    \<and> thr (m_vpThreads (pool (after (serve 3 k) s)) ! k) = W_Ready t
    \<and> functionsQueue (m_vpThreads (pool (after (serve 3 k) s)) ! k) = t # q
    \<and> vEvals (after (serve 3 k) s) = write_result t v (vEvals s)
    \<and> thr (m_vpThreads (pool (after (serve 4 k) s)) ! k) = W_Pop
    \<and> functionsQueue (m_vpThreads (pool (after (serve 4 k) s)) ! k) = t # q
    \<and> run_task t (vEvals s) = Inr (vEvals (after (serve 4 k) s))
    \<and> free (m_vpThreads (pool (after (serve 4 k) s)) ! k) = free (m_vpThreads (pool s) ! k)
    \<and> thr (m_vpThreads (pool (after (serve 5 k) s)) ! k) = W_Free
    \<and> functionsQueue (m_vpThreads (pool (after (serve 5 k) s)) ! k) = q
    \<and> vEvals (after (serve 5 k) s) = vEvals (after (serve 4 k) s)
    \<and> free (m_vpThreads (pool (after (serve 5 k) s)) ! k) = free (m_vpThreads (pool s) ! k)
    \<and> thr (m_vpThreads (pool (after (serve 6 k) s)) ! k) = W_Unlock
    \<and> functionsQueue (m_vpThreads (pool (after (serve 6 k) s)) ! k) = q
    \<and> vEvals (after (serve 6 k) s) = vEvals (after (serve 4 k) s)
    \<and> free (m_vpThreads (pool (after (serve 6 k) s)) ! k)"
proof -
  let ?w = "m_vpThreads (pool s) ! k"
  define s1 where "s1 = set_worker k (?w\<lparr>thr := W_Front\<rparr>) s"
  define s2 where "s2 = set_worker k (?w\<lparr>thr := W_Call t\<rparr>) s"
  define s3 where "s3 = set_worker k (?w\<lparr>thr := W_Ready t\<rparr>)
    (s\<lparr>vEvals := write_result t v (vEvals s)\<rparr>)"
  define s4 where "s4 = set_worker k (?w\<lparr>thr := W_Pop\<rparr>)
    (s\<lparr>vEvals := write_ready t (write_result t v (vEvals s))\<rparr>)"
  define s5 where "s5 = set_worker k (?w\<lparr>functionsQueue := q, thr := W_Free\<rparr>)
    (s\<lparr>vEvals := write_ready t (write_result t v (vEvals s))\<rparr>)"
  define s6 where "s6 = set_worker k (?w\<lparr>functionsQueue := q, free := True, thr := W_Unlock\<rparr>)
    (s\<lparr>vEvals := write_ready t (write_result t v (vEvals s))\<rparr>)"
  have st1: "worker_step k s = Some s1"
    using assms by (simp add: worker_step_def at_worker_lt s1_def)
  have st2: "worker_step k s1 = Some s2"
    using assms by (simp add: worker_step_def at_worker_lt s1_def s2_def set_worker_def upd_worker_def)
  have st3: "worker_step k s2 = Some s3"
    using assms by (simp add: worker_step_def at_worker_lt s2_def s3_def set_worker_def upd_worker_def)
  have st4: "worker_step k s3 = Some s4"
    using assms by (simp add: worker_step_def at_worker_lt s3_def s4_def set_worker_def upd_worker_def)
  have st5: "worker_step k s4 = Some s5"
    using assms by (simp add: worker_step_def at_worker_lt s4_def s5_def set_worker_def upd_worker_def)
  have st6: "worker_step k s5 = Some s6"
    using assms by (simp add: worker_step_def at_worker_lt s5_def s6_def set_worker_def upd_worker_def)
  have r1: "run (serve 1 k) s = Some s1"
    using st1 by (simp add: serve_def)
  have r2: "run (serve 2 k) s = Some s2"
    using st1 st2 by (simp add: serve_def numeral_2_eq_2)
  have r3: "run (serve 3 k) s = Some s3"
    using st1 st2 st3 by (simp add: serve_def numeral_3_eq_3)
  have r4: "run (serve 4 k) s = Some s4"
    using st1 st2 st3 st4 by (simp add: serve_def eval_nat_numeral)
  have r5: "run (serve 5 k) s = Some s5"
    using st1 st2 st3 st4 st5 by (simp add: serve_def eval_nat_numeral)
  have r6: "run (serve 6 k) s = Some s6"
    using st1 st2 st3 st4 st5 st6 by (simp add: serve_def eval_nat_numeral)
  have rt: "run_task t (vEvals s) = Inr (write_ready t (write_result t v (vEvals s)))"
    using assms(4) by (simp add: run_task_def)
  show ?thesis
    unfolding runs_def after_def r1 r2 r3 r4 r5 r6 rt
    using assms(1,3)
    by (simp add: s1_def s2_def s3_def s4_def s5_def s6_def)
qed

theorem worker_iteration_order_witness:
  "thr (m_vpThreads (pool (after (dispatch_to 0 @ serve 1 0) single_start)) ! 0) = W_Check
   \<and> queued (after (dispatch_to 0 @ serve 1 0) single_start) = [[0]]
   \<and> queued (after (serve 4 0) (after (dispatch_to 0 @ serve 1 0) single_start)) = [[0]]
   \<and> results (after (serve 4 0) (after (dispatch_to 0 @ serve 1 0) single_start)) = [7]
   \<and> readyFlags (after (serve 4 0) (after (dispatch_to 0 @ serve 1 0) single_start)) = [True]
   \<and> queued (after (serve 5 0) (after (dispatch_to 0 @ serve 1 0) single_start)) = [[]]
   \<and> flags (after (serve 5 0) (after (dispatch_to 0 @ serve 1 0) single_start)) = [False]
   \<and> flags (after (serve 6 0) (after (dispatch_to 0 @ serve 1 0) single_start)) = [True]
   \<and> free (m_vpThreads (pool (after (serve 6 0)
        (after (dispatch_to 0 @ serve 1 0) single_start))) ! 0)"
proof -
  let ?s = "after (dispatch_to 0 @ serve 1 0) single_start"
  let ?t = "task_of [slot_3_4] 0"
  have s: "?s = set_worker 0 ((ThreadManager_new 0)
      \<lparr>m_mxQueue := Some (Worker 0), functionsQueue := [?t], free := False, thr := W_Check\<rparr>)
      (single_start\<lparr>callers := [\<lparr>todo = [], pc = C_Call\<rparr>]\<rparr>)"
    by (simp add: after_def dispatch_to_def serve_def eval_nat_numeral single_start_def start_def
        one_worker_pool_def caller_step_def worker_step_def at_worker_def set_worker_def
        set_pc_def upd_worker_def ThreadManager_new_def)
  have h1: "0 < length (m_vpThreads (pool ?s))"
    unfolding s by (simp add: single_start_def one_worker_pool_def)
  have h2: "thr (m_vpThreads (pool ?s) ! 0) = W_Check"
    unfolding s by (simp add: single_start_def one_worker_pool_def)
  have h3: "functionsQueue (m_vpThreads (pool ?s) ! 0) = ?t # []"
    unfolding s by (simp add: single_start_def one_worker_pool_def)
  have h4: "cap_f ?t (cap_param1 ?t) (cap_param2 ?t) = Inr 7"
    by (simp add: task_of_def mk_task_def slot_3_4_def arith_defs)
  have v: "queued ?s = [[0]]"
    "queued (after (serve 4 0) ?s) = [[0]]"
    "results (after (serve 4 0) ?s) = [7]"
    "readyFlags (after (serve 4 0) ?s) = [True]"
    "queued (after (serve 5 0) ?s) = [[]]"
    "flags (after (serve 5 0) ?s) = [False]"
    "flags (after (serve 6 0) ?s) = [True]"
    by code_simp+
  from worker_iteration_order [OF h1 h2 h3 h4] h2 v show ?thesis by simp
qed

subsection \<open>The program of \<open>main\<close>\<close>

text \<open>
  C8, as the claim states it, fails for the slot of \<open>i = 3\<close>: \<open>funcs[3 % 4]\<close> is
  \<open>myFunc_4\<close>, the division, not the multiplication, and the slot ends with \<open>6 / 3 = 2\<close>,
  not with 18.
\<close>

theorem main_slot_3_holds_quotient:
  "runs main_schedule main_start
   \<and> drained (after main_schedule main_start)
   \<and> results (after main_schedule main_start) ! 3 = 2
   \<and> results (after main_schedule main_start) ! 3 \<noteq> 18
   \<and> func (main_vEvals ! 3) = myFunc_4 \<and> func (main_vEvals ! 3) \<noteq> myFunc_3"
proof -
  have "runs main_schedule main_start \<and> drained (after main_schedule main_start)
   \<and> results (after main_schedule main_start) ! 3 = 2
   \<and> results (after main_schedule main_start) ! 3 \<noteq> 18"
    by code_simp
  moreover have "func (main_vEvals ! 3) = myFunc_4 \<and> func (main_vEvals ! 3) \<noteq> myFunc_3"
    unfolding main_vEvals_eq using myFunc_4_neq(3) [symmetric] by simp
  ultimately show ?thesis by blast
qed

text \<open>
  C8, amended. In the program of \<open>main\<close> (eleven evaluations with parameters \<open>(2i, i)\<close>,
  the functions add, subtract, multiply, divide in turn by \<open>i mod 4\<close>, four workers, each
  call repeated until it returns true), in every reachable state in which all
  evaluations are scheduled and every queue is empty, each of the eleven ready flags is
  true and each result is the direct evaluation of the slot's function on its inputs;
  the slot of \<open>i = 3\<close> uses the division and holds \<open>6 / 3 = 2\<close>.
\<close>

theorem main_scenario_results:
  assumes "ThreadPool_new nThreads = Inr p"
    and "reachable (start p [main_tasks] main_vEvals) s" and "drained s"
  shows "readyFlags s = replicate 11 True
      \<and> results s = [0, 1, 8, 2, 12, 5, 72, 2, 24, 9, 200]
      \<and> map expected main_vEvals = map Inr (results s)
      \<and> func (main_vEvals ! 3) = myFunc_4 \<and> myFunc_4 6 3 = Inr 2
      \<and> results s ! 3 = 2"
proof -
  have nr: "\<forall>e \<in> set main_vEvals. \<not> readyFlag e" unfolding main_vEvals_eq by simp
  from work_inv_start [OF assms(1) nr] reachable_work_inv [OF assms(2) [unfolded main_tasks_eq]]
  have W: "work_inv main_vEvals s" by simp
  then have len: "length (vEvals s) = length main_vEvals"
    by (simp add: work_inv_def mem_inv_def)
  note l11 = length_main_vEvals
  note d = drained_ready [OF W assms(3)]
  have rf: "readyFlags s = replicate 11 True"
    using d len l11 by (auto simp: readyFlags_def list_eq_iff_nth_eq)
  have ex: "map expected main_vEvals = map Inr (results s)"
    using d len by (auto simp: results_def list_eq_iff_nth_eq)
  with main_expected have rs: "results s = [0, 1, 8, 2, 12, 5, 72, 2, 24, 9, 200]"
    by (auto simp: map_eq_Cons_conv)
  have "func (main_vEvals ! 3) = myFunc_4" unfolding main_vEvals_eq by simp
  moreover have "myFunc_4 6 3 = Inr 2" by (simp add: arith_defs signed_divide_int_def)
  ultimately show ?thesis using rf ex rs by simp
qed

theorem main_scenario_results_witness:
  "ThreadPool_new nThreads = Inr main_pool
   \<and> reachable (start main_pool [main_tasks] main_vEvals) (after main_schedule main_start)
   \<and> drained (after main_schedule main_start)
   \<and> readyFlags (after main_schedule main_start) = replicate 11 True
   \<and> results (after main_schedule main_start) = [0, 1, 8, 2, 12, 5, 72, 2, 24, 9, 200]"
proof -
  have r: "runs main_schedule main_start" by code_simp
  have h2: "reachable (start main_pool [main_tasks] main_vEvals) (after main_schedule main_start)"
    using runs_reachable [OF r] by (simp add: main_start_def)
  have h3: "drained (after main_schedule main_start)" by code_simp
  from main_scenario_results [OF pools_constructed(2) h2 h3] pools_constructed(2) h2 h3
  show ?thesis by simp
qed

end
